theory Spec2Isabelle
  imports Main
begin

section \<open>Molecular graphs as the chemistry engine holds them\<close>

text \<open>
  The fragmentation code of \<^verbatim>\<open>scaffoldgraph/core/fragment.py\<close> works on molecules of
  the chemistry engine: atoms and bonds are numbered by their position in the molecule,
  an atom carries the annotations the code reads and writes, a bond its two end atoms and
  its order. The ring information of a molecule (the rings found by ring perception, each
  as the indices of its atoms and of its bonds) is stored with the molecule and copied
  with it.
\<close>

datatype ChiralType = CHI_UNSPECIFIED | CHI_TETRAHEDRAL_CW | CHI_TETRAHEDRAL_CCW | CHI_OTHER

datatype BondType = SINGLE | DOUBLE | TRIPLE | AROMATIC | OTHER_ORDER

record atom =
  atomic_num :: nat
  is_aromatic :: bool
  num_explicit_hs :: nat
  no_implicit :: bool
  chiral_tag :: ChiralType

record bond =
  begin_atom :: nat
  end_atom :: nat
  bond_type :: BondType

record ring =
  aix :: "nat list"
  bix :: "nat list"

record mol =
  atoms :: "atom list"
  bonds :: "bond list"
  ring_info :: "ring list"

subsection \<open>Objects and references\<close>

text \<open>
  Python molecules are mutable objects reached through references. The store maps an
  address to the molecule that lives there; \<open>fresh\<close> is the next unused address. An
  atom or a bond object is a handle: the address of the molecule that owns it and its
  index there. Every method of an atom or bond reads or writes the owning molecule.
\<close>

type_synonym addr = nat

record store =
  cells :: "addr \<Rightarrow> mol"
  fresh :: addr

type_synonym atom_ref = "addr \<times> nat"
type_synonym bond_ref = "addr \<times> nat"

definition GetAtomWithIdx :: "addr \<Rightarrow> nat \<Rightarrow> atom_ref" where
  "GetAtomWithIdx m i = (m, i)"

definition GetBondWithIdx :: "addr \<Rightarrow> nat \<Rightarrow> bond_ref" where
  "GetBondWithIdx m i = (m, i)"

definition GetIdx :: "addr \<times> nat \<Rightarrow> nat" where
  "GetIdx r = snd r"

definition atom_at :: "store \<Rightarrow> atom_ref \<Rightarrow> atom" where
  "atom_at s a = atoms (cells s (fst a)) ! snd a"

definition bond_at :: "store \<Rightarrow> bond_ref \<Rightarrow> bond" where
  "bond_at s b = bonds (cells s (fst b)) ! snd b"

definition valid_atom :: "store \<Rightarrow> atom_ref \<Rightarrow> bool" where
  "valid_atom s a = (snd a < length (atoms (cells s (fst a))))"

definition update_atom :: "store \<Rightarrow> atom_ref \<Rightarrow> (atom \<Rightarrow> atom) \<Rightarrow> store" where
  "update_atom s a f =
     s\<lparr>cells := (cells s)(fst a := (cells s (fst a))
        \<lparr>atoms := (atoms (cells s (fst a)))[snd a := f (atom_at s a)]\<rparr>)\<rparr>"

definition update_bond :: "store \<Rightarrow> bond_ref \<Rightarrow> (bond \<Rightarrow> bond) \<Rightarrow> store" where
  "update_bond s b f =
     s\<lparr>cells := (cells s)(fst b := (cells s (fst b))
        \<lparr>bonds := (bonds (cells s (fst b)))[snd b := f (bond_at s b)]\<rparr>)\<rparr>"

definition GetIsAromatic :: "store \<Rightarrow> atom_ref \<Rightarrow> bool" where
  "GetIsAromatic s a = is_aromatic (atom_at s a)"

definition GetAtomicNum :: "store \<Rightarrow> atom_ref \<Rightarrow> nat" where
  "GetAtomicNum s a = atomic_num (atom_at s a)"

definition GetNoImplicit :: "store \<Rightarrow> atom_ref \<Rightarrow> bool" where
  "GetNoImplicit s a = no_implicit (atom_at s a)"

definition GetChiralTag :: "store \<Rightarrow> atom_ref \<Rightarrow> ChiralType" where
  "GetChiralTag s a = chiral_tag (atom_at s a)"

definition SetNumExplicitHs :: "store \<Rightarrow> atom_ref \<Rightarrow> nat \<Rightarrow> store" where
  "SetNumExplicitHs s a n = update_atom s a (\<lambda>x. x\<lparr>num_explicit_hs := n\<rparr>)"

definition SetNoImplicit :: "store \<Rightarrow> atom_ref \<Rightarrow> bool \<Rightarrow> store" where
  "SetNoImplicit s a v = update_atom s a (\<lambda>x. x\<lparr>no_implicit := v\<rparr>)"

definition SetChiralTag :: "store \<Rightarrow> atom_ref \<Rightarrow> ChiralType \<Rightarrow> store" where
  "SetChiralTag s a t = update_atom s a (\<lambda>x. x\<lparr>chiral_tag := t\<rparr>)"

section \<open>The atom property corrector\<close>

text \<open>
  \<^verbatim>\<open>correct_atom_props(atom)\<close>: an aromatic atom that is not carbon gets one explicit
  hydrogen; otherwise an atom that suppresses implicit hydrogens or has a chirality tag is
  reset.
\<close>

definition correct_atom_props :: "store \<Rightarrow> atom_ref \<Rightarrow> store" where
  "correct_atom_props s a =
     (if GetIsAromatic s a \<and> GetAtomicNum s a \<noteq> 6 then SetNumExplicitHs s a 1
      else if GetNoImplicit s a \<or> GetChiralTag s a \<noteq> CHI_UNSPECIFIED then
        SetChiralTag (SetNumExplicitHs (SetNoImplicit s a False) a 0) a CHI_UNSPECIFIED
      else s)"

section \<open>Reading the graph\<close>

text \<open>
  The bonds of an atom are the bonds of its molecule that end at it, in the order of
  their indices; its degree is their number; its neighbours are their other ends, atoms of
  the same molecule. The ring information counts, for an atom or a bond, the rings that
  list it (\<^verbatim>\<open>NumAtomRings\<close>, \<^verbatim>\<open>NumBondRings\<close>); an atom or bond is in a ring when
  that count is not zero (\<^verbatim>\<open>IsInRing\<close>).
\<close>

definition GetBonds :: "store \<Rightarrow> atom_ref \<Rightarrow> bond_ref list" where
  "GetBonds s a =
     (let bs = bonds (cells s (fst a)) in
      map (\<lambda>j. (fst a, j))
        (filter (\<lambda>j. begin_atom (bs ! j) = snd a \<or> end_atom (bs ! j) = snd a) [0..<length bs]))"

definition GetDegree :: "store \<Rightarrow> atom_ref \<Rightarrow> nat" where
  "GetDegree s a = length (GetBonds s a)"

definition GetOtherAtom :: "store \<Rightarrow> bond_ref \<Rightarrow> atom_ref \<Rightarrow> atom_ref" where
  "GetOtherAtom s b a =
     (fst a, if begin_atom (bond_at s b) = snd a then end_atom (bond_at s b)
             else begin_atom (bond_at s b))"

definition GetNeighbors :: "store \<Rightarrow> atom_ref \<Rightarrow> atom_ref list" where
  "GetNeighbors s a = map (\<lambda>b. GetOtherAtom s b a) (GetBonds s a)"

definition GetBondType :: "store \<Rightarrow> bond_ref \<Rightarrow> BondType" where
  "GetBondType s b = bond_type (bond_at s b)"

definition NumAtomRings :: "mol \<Rightarrow> nat \<Rightarrow> nat" where
  "NumAtomRings m i = length (filter (\<lambda>r. i \<in> set (aix r)) (ring_info m))"

definition NumBondRings :: "mol \<Rightarrow> nat \<Rightarrow> nat" where
  "NumBondRings m j = length (filter (\<lambda>r. j \<in> set (bix r)) (ring_info m))"

definition AtomIsInRing :: "store \<Rightarrow> atom_ref \<Rightarrow> bool" where
  "AtomIsInRing s a = (NumAtomRings (cells s (fst a)) (snd a) \<noteq> 0)"

definition BondIsInRing :: "store \<Rightarrow> bond_ref \<Rightarrow> bool" where
  "BondIsInRing s b = (NumBondRings (cells s (fst b)) (snd b) \<noteq> 0)"

section \<open>The linker collector\<close>

text \<open>
  \<^verbatim>\<open>collect_linker_atoms\<close> walks from an origin atom along bonds that are not in a
  ring. Its inner function \<^verbatim>\<open>collect\<close> is recursive and updates three sets as it
  goes: the bond indices visited, the caller's set of atoms to remove, and the ring
  attachments. The record below is that state together with the store, which the
  traversal changes through \<^verbatim>\<open>correct_atom_props\<close>. Python's bound on the depth of
  recursion is not modelled.
\<close>

record collector =
  heap :: store
  visited :: "nat set"
  remove_atoms :: "nat set"
  ring_attachments :: "nat set"

definition non_terminal_branches :: "store \<Rightarrow> atom_ref \<Rightarrow> nat" where
  "non_terminal_branches s other_atom =
     length (filter (\<lambda>neighbor. GetDegree s neighbor \<noteq> 1) (GetNeighbors s other_atom))"

text \<open>
  The three updates of the loop body: a terminal neighbour, a neighbour the traversal
  goes on into, and a branching point with three or more non-terminal neighbours.
\<close>

definition terminal_side_chain :: "collector \<Rightarrow> atom_ref \<Rightarrow> atom_ref \<Rightarrow> nat \<Rightarrow> collector" where
  "terminal_side_chain c origin_atom other_atom bond_id =
     c\<lparr>remove_atoms := insert (GetIdx other_atom) (insert (GetIdx origin_atom) (remove_atoms c)),
       heap := correct_atom_props (heap c) origin_atom,
       visited := insert bond_id (visited c)\<rparr>"

definition continue_deletion :: "collector \<Rightarrow> atom_ref \<Rightarrow> nat \<Rightarrow> collector" where
  "continue_deletion c origin_atom bond_id =
     c\<lparr>remove_atoms := insert (GetIdx origin_atom) (remove_atoms c),
       visited := insert bond_id (visited c)\<rparr>"

definition branching_point :: "collector \<Rightarrow> atom_ref \<Rightarrow> atom_ref \<Rightarrow> bond_ref \<Rightarrow> collector" where
  "branching_point c origin_atom other_atom bond =
     (let c1 = (if GetBondType (heap c) bond \<noteq> DOUBLE then
                  c\<lparr>remove_atoms := insert (GetIdx origin_atom) (remove_atoms c),
                    heap := correct_atom_props (heap c) other_atom,
                    visited := insert (GetIdx bond) (visited c)\<rparr>
                else c)
      in if AtomIsInRing (heap c1) other_atom
         then c1\<lparr>ring_attachments := insert (GetIdx other_atom) (ring_attachments c1)\<rparr>
         else c1)"

text \<open>
  \<^verbatim>\<open>collect(origin_atom)\<close> is the loop over \<^verbatim>\<open>origin_atom.GetBonds()\<close>;
  \<open>collect_bonds\<close> is that loop on the bonds still to look at.
\<close>

function collect :: "collector \<Rightarrow> atom_ref \<Rightarrow> collector"
  and collect_bonds :: "collector \<Rightarrow> atom_ref \<Rightarrow> bond_ref list \<Rightarrow> collector" where
  "collect c origin_atom = collect_bonds c origin_atom (GetBonds (heap c) origin_atom)"
| "collect_bonds c origin_atom [] = c"
| "collect_bonds c origin_atom (bond # rest) =
     (if GetIdx bond \<in> visited c \<or> BondIsInRing (heap c) bond then
        collect_bonds c origin_atom rest
      else if GetDegree (heap c) (GetOtherAtom (heap c) bond origin_atom) = 1 then
        collect_bonds
          (terminal_side_chain c origin_atom (GetOtherAtom (heap c) bond origin_atom) (GetIdx bond))
          origin_atom rest
      else if GetDegree (heap c) (GetOtherAtom (heap c) bond origin_atom) = 2 then
        collect_bonds
          (collect (continue_deletion c origin_atom (GetIdx bond))
             (GetOtherAtom (heap c) bond origin_atom))
          origin_atom rest
      else if GetDegree (heap c) (GetOtherAtom (heap c) bond origin_atom) > 2 then
        (if non_terminal_branches (heap c) (GetOtherAtom (heap c) bond origin_atom) < 3 then
           collect_bonds
             (collect (continue_deletion c origin_atom (GetIdx bond))
                (GetOtherAtom (heap c) bond origin_atom))
             origin_atom rest
         else
           collect_bonds
             (branching_point c origin_atom (GetOtherAtom (heap c) bond origin_atom) bond)
             origin_atom rest)
      else collect_bonds c origin_atom rest)"
  by pat_completeness auto

subsection \<open>Termination: every descent marks a bond that was not yet visited\<close>

text \<open>
  The traversal only goes on into a neighbour after it has marked a bond that was not
  visited before, and it never unmarks one; so the number of unvisited bonds bounds the
  depth of the recursion.
\<close>

lemma bonds_update_atom [simp]: "bonds (cells (update_atom s a f) k) = bonds (cells s k)"
  by (simp add: update_atom_def)

lemma bonds_correct_atom_props [simp]:
  "bonds (cells (correct_atom_props s a) k) = bonds (cells s k)"
  by (simp add: correct_atom_props_def SetNumExplicitHs_def SetNoImplicit_def SetChiralTag_def)

definition grows :: "collector \<Rightarrow> collector \<Rightarrow> bool" where
  "grows c c' = (visited c \<subseteq> visited c' \<and>
     (\<forall>k. bonds (cells (heap c') k) = bonds (cells (heap c) k)))"

lemma grows_refl: "grows c c"
  by (simp add: grows_def)

lemma grows_trans: "grows a b \<Longrightarrow> grows b c \<Longrightarrow> grows a c"
  by (auto simp: grows_def)

lemma grows_terminal: "grows c (terminal_side_chain c a b i)"
  by (auto simp: grows_def terminal_side_chain_def)

lemma grows_continue: "grows c (continue_deletion c a i)"
  by (auto simp: grows_def continue_deletion_def)

lemma grows_branching: "grows c (branching_point c a b i)"
  by (auto simp: grows_def branching_point_def Let_def)

lemma collect_grows_dom:
  "collect_collect_bonds_dom (Inl (c, a)) \<Longrightarrow> grows c (collect c a)"
  "collect_collect_bonds_dom (Inr (c, a, bs)) \<Longrightarrow> grows c (collect_bonds c a bs)"
proof (induct rule: collect_collect_bonds.pinduct)
  case (1 c origin_atom)
  then show ?case by (simp add: collect.psimps)
next
  case (2 c origin_atom)
  then show ?case by (simp add: collect_bonds.psimps grows_refl)
next
  case (3 c origin_atom bond rest)
  note dom = "3.hyps"(1)
  let ?other = "GetOtherAtom (heap c) bond origin_atom"
  let ?d = "GetDegree (heap c) ?other"
  let ?c' = "continue_deletion c origin_atom (GetIdx bond)"
  show ?case
  proof (cases "GetIdx bond \<in> visited c \<or> BondIsInRing (heap c) bond")
    case True
    then show ?thesis using "3.hyps"(2) by (simp add: collect_bonds.psimps(2) [OF dom])
  next
    case nv: False
    show ?thesis
    proof (cases "?d = 1")
      case True
      from "3.hyps"(3) [OF nv True]
      have "grows (terminal_side_chain c origin_atom ?other (GetIdx bond))
              (collect_bonds (terminal_side_chain c origin_atom ?other (GetIdx bond)) origin_atom rest)" .
      with grows_terminal have "grows c
              (collect_bonds (terminal_side_chain c origin_atom ?other (GetIdx bond)) origin_atom rest)"
        by (rule grows_trans)
      then show ?thesis using nv True by (simp add: collect_bonds.psimps(2) [OF dom])
    next
      case n1: False
      show ?thesis
      proof (cases "?d = 2")
        case True
        have a: "grows ?c' (collect ?c' ?other)" using "3.hyps"(4) [OF nv n1 True] .
        have b: "grows (collect ?c' ?other) (collect_bonds (collect ?c' ?other) origin_atom rest)"
          using "3.hyps"(5) [OF nv n1 True] .
        have "grows c (collect_bonds (collect ?c' ?other) origin_atom rest)"
          using grows_trans [OF grows_trans [OF grows_continue a] b] .
        then show ?thesis using nv n1 True by (simp add: collect_bonds.psimps(2) [OF dom])
      next
        case n2: False
        show ?thesis
        proof (cases "2 < ?d")
          case gt: True
          show ?thesis
          proof (cases "non_terminal_branches (heap c) ?other < 3")
            case True
            have a: "grows ?c' (collect ?c' ?other)" using "3.hyps"(6) [OF nv n1 n2 gt True] .
            have b: "grows (collect ?c' ?other) (collect_bonds (collect ?c' ?other) origin_atom rest)"
              using "3.hyps"(7) [OF nv n1 n2 gt True] .
            have "grows c (collect_bonds (collect ?c' ?other) origin_atom rest)"
              using grows_trans [OF grows_trans [OF grows_continue a] b] .
            then show ?thesis using nv n1 n2 gt True
              by (simp add: collect_bonds.psimps(2) [OF dom])
          next
            case False
            have "grows c (collect_bonds (branching_point c origin_atom ?other bond) origin_atom rest)"
              using grows_trans [OF grows_branching "3.hyps"(8) [OF nv n1 n2 gt False]] .
            then show ?thesis using nv n1 n2 gt False
              by (simp add: collect_bonds.psimps(2) [OF dom])
          qed
        next
          case False
          then show ?thesis using nv n1 n2 "3.hyps"(9)
            by (simp add: collect_bonds.psimps(2) [OF dom])
        qed
      qed
    qed
  qed
qed


definition unvisited :: "collector \<Rightarrow> atom_ref \<Rightarrow> bond_ref list \<Rightarrow> nat" where
  "unvisited c a bs =
     card (({0..<length (bonds (cells (heap c) (fst a)))} \<union> snd ` set bs) - visited c)"

lemma unvisited_GetBonds: "unvisited c a (GetBonds (heap c) a) = unvisited c a []"
proof -
  have "snd ` set (GetBonds (heap c) a) \<subseteq> {0..<length (bonds (cells (heap c) (fst a)))}"
    by (auto simp: GetBonds_def Let_def)
  then show ?thesis
    by (simp add: unvisited_def Un_absorb2)
qed

lemma unvisited_mono:
  assumes "grows c c'" and "set bs' \<subseteq> set bs" and "fst b = fst a"
  shows "unvisited c' b bs' \<le> unvisited c a bs"
  unfolding unvisited_def using assms
  by (intro card_mono) (auto simp: grows_def)

lemma unvisited_less:
  assumes "grows (c\<lparr>visited := insert (snd bond) (visited c)\<rparr>) c'" and "snd bond \<notin> visited c"
    and "fst b = fst a"
  shows "unvisited c' b [] < unvisited c a (bond # rest)"
  unfolding unvisited_def
proof (rule psubset_card_mono)
  show "finite (({0..<length (bonds (cells (heap c) (fst a)))} \<union> snd ` set (bond # rest)) - visited c)"
    by simp
  have "snd bond \<in> visited c'" using assms(1) by (auto simp: grows_def)
  moreover have "bonds (cells (heap c') (fst b)) = bonds (cells (heap c) (fst a))"
    using assms(1,3) by (simp add: grows_def)
  moreover have "visited c \<subseteq> visited c'" using assms(1) by (auto simp: grows_def)
  ultimately show "({0..<length (bonds (cells (heap c') (fst b)))} \<union> snd ` set []) - visited c'
      \<subset> ({0..<length (bonds (cells (heap c) (fst a)))} \<union> snd ` set (bond # rest)) - visited c"
    using assms(2) by auto
qed

lemma lex_skip:
  "x \<le> y \<Longrightarrow> l < l' \<Longrightarrow>
     ((x, 0::nat, l), (y, 0::nat, l')) \<in> less_than <*lex*> less_than <*lex*> less_than"
  by auto

lemma lex_descend:
  "x < y \<Longrightarrow> ((x, t, l), (y, t', l')) \<in> less_than <*lex*> less_than <*lex*> less_than"
  by auto

lemma fst_GetOtherAtom [simp]: "fst (GetOtherAtom s b a) = fst a"
  by (simp add: GetOtherAtom_def)

lemma continue_deletion_less:
  assumes "\<not> (GetIdx bond \<in> visited c \<or> BondIsInRing (heap c) bond)"
  shows "unvisited (continue_deletion c a (GetIdx bond)) (GetOtherAtom (heap c) bond a) []
           < unvisited c a (bond # rest)"
proof (rule unvisited_less)
  show "grows (c\<lparr>visited := insert (snd bond) (visited c)\<rparr>) (continue_deletion c a (GetIdx bond))"
    by (auto simp: grows_def continue_deletion_def GetIdx_def)
  show "snd bond \<notin> visited c" using assms by (simp add: GetIdx_def)
  show "fst (GetOtherAtom (heap c) bond a) = fst a" by simp
qed

termination collect
proof (relation "inv_image (less_than <*lex*> less_than <*lex*> less_than)
     (\<lambda>x. case x of
        Inl (c, a) \<Rightarrow> (unvisited c a [], 1::nat, 0::nat)
      | Inr (c, a, bs) \<Rightarrow> (unvisited c a bs, 0, length bs))", goal_cases)
  case 1
  show ?case by auto
next
  case (2 c origin_atom)
  show ?case by (simp add: unvisited_GetBonds)
next
  case (3 c origin_atom bond rest)
  have "unvisited c origin_atom rest \<le> unvisited c origin_atom (bond # rest)"
    by (rule unvisited_mono [OF grows_refl]) auto
  then show ?case by (simp del: in_lex_prod add: lex_skip)
next
  case (4 c origin_atom bond rest)
  have "unvisited (terminal_side_chain c origin_atom (GetOtherAtom (heap c) bond origin_atom)
          (GetIdx bond)) origin_atom rest \<le> unvisited c origin_atom (bond # rest)"
    by (rule unvisited_mono [OF grows_terminal]) auto
  then show ?case by (simp del: in_lex_prod add: lex_skip)
next
  case (5 c origin_atom bond rest)
  then show ?case
    by (simp del: in_lex_prod add: lex_descend continue_deletion_less)
next
  case (6 c origin_atom bond rest)
  have "grows c (collect (continue_deletion c origin_atom (GetIdx bond))
           (GetOtherAtom (heap c) bond origin_atom))"
    using grows_trans [OF grows_continue collect_grows_dom(1) [OF 6(4)]] .
  then have "unvisited (collect (continue_deletion c origin_atom (GetIdx bond))
           (GetOtherAtom (heap c) bond origin_atom)) origin_atom rest
        \<le> unvisited c origin_atom (bond # rest)"
    by (rule unvisited_mono) auto
  then show ?case by (simp del: in_lex_prod add: lex_skip)
next
  case (7 c origin_atom bond rest)
  then show ?case
    by (simp del: in_lex_prod add: lex_descend continue_deletion_less)
next
  case (8 c origin_atom bond rest)
  have "grows c (collect (continue_deletion c origin_atom (GetIdx bond))
           (GetOtherAtom (heap c) bond origin_atom))"
    using grows_trans [OF grows_continue collect_grows_dom(1) [OF 8(6)]] .
  then have "unvisited (collect (continue_deletion c origin_atom (GetIdx bond))
           (GetOtherAtom (heap c) bond origin_atom)) origin_atom rest
        \<le> unvisited c origin_atom (bond # rest)"
    by (rule unvisited_mono) auto
  then show ?case by (simp del: in_lex_prod add: lex_skip)
next
  case (9 c origin_atom bond rest)
  have "unvisited (branching_point c origin_atom (GetOtherAtom (heap c) bond origin_atom) bond)
          origin_atom rest \<le> unvisited c origin_atom (bond # rest)"
    by (rule unvisited_mono [OF grows_branching]) auto
  then show ?case by (simp del: in_lex_prod add: lex_skip)
next
  case (10 c origin_atom bond rest)
  have "unvisited c origin_atom rest \<le> unvisited c origin_atom (bond # rest)"
    by (rule unvisited_mono [OF grows_refl]) auto
  then show ?case by (simp del: in_lex_prod add: lex_skip)
qed


declare collect.simps [simp del]

declare collect_bonds.simps(2) [simp del]

text \<open>
  \<^verbatim>\<open>collect_linker_atoms(origin, remove_atoms, include_origin)\<close> starts the traversal
  with no bond visited and no ring attachment, on the caller's set of atoms to remove. It
  gives back the store, the caller's set as the traversal left it, and the ring
  attachments.
\<close>

definition collect_linker_atoms ::
    "store \<Rightarrow> atom_ref \<Rightarrow> nat set \<Rightarrow> bool \<Rightarrow> store \<times> nat set \<times> nat set" where
  "collect_linker_atoms s origin remove include_origin =
     (let c = collect \<lparr>heap = s, visited = {}, remove_atoms = remove, ring_attachments = {}\<rparr> origin;
          remove' = (if \<not> include_origin then remove_atoms c - {GetIdx origin} else remove_atoms c);
          attachments = (if AtomIsInRing (heap c) origin
                         then insert (GetIdx origin) (ring_attachments c)
                         else ring_attachments c)
      in (heap c, remove', attachments))"


section \<open>The chemistry engine\<close>

text \<open>
  The fragmentation code calls the chemistry engine for sanitization, for splitting a
  molecule into its connected components, for ring perception, for the canonical form of a
  molecule and for the Murcko scaffold of a molecule. What these compute is not part of
  the code verified here: they are the fields of \<open>engine\<close>, and every theorem holds for
  every engine. An exception raised by the engine is \<open>ValueError\<close>, which is how the
  engine reports that sanitization rejects a molecule, or some other exception.
  \<open>SanitizeMol\<close> works in place: it gives the molecule as it leaves it, and the
  exception it raises, if any.
\<close>

datatype exn = ValueError | OtherException

record engine =
  SanitizeMol :: "mol \<Rightarrow> mol \<times> exn option"
  GetMolFrags :: "mol \<Rightarrow> mol list"
  FindRings :: "mol \<Rightarrow> ring list"
  FindRingSystems :: "mol \<Rightarrow> ring list"
  MolToSmiles :: "mol \<Rightarrow> string"
  GetScaffoldForMol :: "mol \<Rightarrow> mol"
  RemoveStereochemistry :: "mol \<Rightarrow> mol"

text \<open>
  A new molecule object takes the next unused address. \<^verbatim>\<open>RWMol(mol)\<close> is a new
  object holding a copy of \<open>mol\<close>.
\<close>

definition new_mol :: "store \<Rightarrow> mol \<Rightarrow> store \<times> addr" where
  "new_mol s m = (s\<lparr>cells := (cells s)(fresh s := m), fresh := Suc (fresh s)\<rparr>, fresh s)"

definition set_mol :: "store \<Rightarrow> addr \<Rightarrow> mol \<Rightarrow> store" where
  "set_mol s a m = s\<lparr>cells := (cells s)(a := m)\<rparr>"

definition RWMol :: "store \<Rightarrow> addr \<Rightarrow> store \<times> addr" where
  "RWMol s a = new_mol s (cells s a)"

definition GetBeginAtomIdx :: "store \<Rightarrow> bond_ref \<Rightarrow> nat" where
  "GetBeginAtomIdx s b = begin_atom (bond_at s b)"

definition GetEndAtomIdx :: "store \<Rightarrow> bond_ref \<Rightarrow> nat" where
  "GetEndAtomIdx s b = end_atom (bond_at s b)"

definition SetBondType :: "store \<Rightarrow> bond_ref \<Rightarrow> BondType \<Rightarrow> store" where
  "SetBondType s b t = update_bond s b (\<lambda>x. x\<lparr>bond_type := t\<rparr>)"

text \<open>
  \<^verbatim>\<open>RemoveBond(x, y)\<close> removes the bond between the two atoms, if there is one;
  \<^verbatim>\<open>RemoveAtom(i)\<close> removes the atom and its bonds, and the atoms above it move down by
  one. Both discard the ring information of the molecule. The indices the code passes to
  the engine are those of atoms and bonds of the molecule (they come from its ring
  information and from the ends of its bonds); the engine's range errors are not
  modelled.
\<close>

definition joins :: "bond \<Rightarrow> nat \<Rightarrow> nat \<Rightarrow> bool" where
  "joins b x y = ((begin_atom b = x \<and> end_atom b = y) \<or> (begin_atom b = y \<and> end_atom b = x))"

fun remove_first :: "('a \<Rightarrow> bool) \<Rightarrow> 'a list \<Rightarrow> 'a list" where
  "remove_first P [] = []"
| "remove_first P (x # xs) = (if P x then xs else x # remove_first P xs)"

definition RemoveBond :: "store \<Rightarrow> addr \<Rightarrow> nat \<times> nat \<Rightarrow> store" where
  "RemoveBond s a xy =
     (let m = cells s a in
      if \<exists>b\<in>set (bonds m). joins b (fst xy) (snd xy) then
        set_mol s a (m\<lparr>bonds := remove_first (\<lambda>b. joins b (fst xy) (snd xy)) (bonds m),
                       ring_info := []\<rparr>)
      else s)"

definition renumber :: "nat \<Rightarrow> nat \<Rightarrow> nat" where
  "renumber i x = (if i < x then x - 1 else x)"

definition RemoveAtom :: "store \<Rightarrow> addr \<Rightarrow> nat \<Rightarrow> store" where
  "RemoveAtom s a i =
     (let m = cells s a in
      set_mol s a (m\<lparr>atoms := take i (atoms m) @ drop (Suc i) (atoms m),
                     bonds := map (\<lambda>b. b\<lparr>begin_atom := renumber i (begin_atom b),
                                           end_atom := renumber i (end_atom b)\<rparr>)
                                (filter (\<lambda>b. begin_atom b \<noteq> i \<and> end_atom b \<noteq> i) (bonds m)),
                     ring_info := []\<rparr>))"


section \<open>Scaffolds\<close>

text \<open>
  Modelled from the spec: the class \<^verbatim>\<open>Scaffold\<close> of \<^verbatim>\<open>scaffoldgraph/core/scaffold.py\<close>,
  which is not among the sources. A Scaffold wraps one molecule and carries its ring set
  and ring-system set, derived once when it is made, and the index of the ring whose
  removal made it. \<^verbatim>\<open>rings.count\<close> and \<^verbatim>\<open>len(rings)\<close> are the length of the ring
  list; \<^verbatim>\<open>rings.info\<close> is the ring information of the molecule; \<^verbatim>\<open>ring.atoms\<close> are the
  atoms of the scaffold's molecule at \<^verbatim>\<open>ring.aix\<close>; \<^verbatim>\<open>len(ring)\<close> is the number of its
  atoms. Equality and hashing of Scaffolds go by the canonical form of the molecule,
  kept here in the field \<open>smiles\<close>. Making a Scaffold runs ring perception on its
  molecule, which stores the ring information in the molecule. How the class groups the
  rings into ring systems is a parameter, the field \<open>FindRingSystems\<close> of the engine
  record. Setting \<^verbatim>\<open>removed_ring_idx\<close> on a Scaffold that was just made is an update of
  the record.
\<close>

record scaffold =
  mol :: addr
  rings :: "ring list"
  ring_systems :: "ring list"
  removed_ring_idx :: "nat option"
  smiles :: string

text \<open>
  Modelled from the spec: the constructor \<^verbatim>\<open>Scaffold(mol)\<close>. Ring perception writes the
  ring information into the molecule; the ring set, the ring-system set and the canonical
  form are read off the molecule then.
\<close>

definition perceived :: "engine \<Rightarrow> mol \<Rightarrow> mol" where
  "perceived eng m = m\<lparr>ring_info := FindRings eng m\<rparr>"

definition Scaffold :: "engine \<Rightarrow> store \<Rightarrow> addr \<Rightarrow> store \<times> scaffold" where
  "Scaffold eng s a =
     (let m = perceived eng (cells s a) in
      (set_mol s a m,
       \<lparr>mol = a, rings = ring_info m, ring_systems = FindRingSystems eng m,
        removed_ring_idx = None, smiles = MolToSmiles eng m\<rparr>))"

text \<open>
  Modelled from the spec: \<^verbatim>\<open>ring.atoms\<close>, the atoms of the scaffold's own molecule at
  the indices \<^verbatim>\<open>ring.aix\<close>.
\<close>

definition ring_atoms :: "scaffold \<Rightarrow> ring \<Rightarrow> atom_ref list" where
  "ring_atoms sc r = map (GetAtomWithIdx (mol sc)) (aix r)"

text \<open>
  Modelled from the spec: equality of Scaffolds (\<^verbatim>\<open>__eq__\<close> and \<^verbatim>\<open>__hash__\<close>), by the
  canonical form.
\<close>

definition scaffold_eq :: "scaffold \<Rightarrow> scaffold \<Rightarrow> bool" where
  "scaffold_eq x y = (smiles x = smiles y)"

text \<open>
  A Python set of Scaffolds is a list without two equal members, in the order of
  insertion; the order in which Python iterates over a set is not specified, and no
  theorem below depends on it.
\<close>

definition contains :: "scaffold list \<Rightarrow> scaffold \<Rightarrow> bool" where
  "contains S x = (\<exists>y\<in>set S. scaffold_eq y x)"

definition add :: "scaffold list \<Rightarrow> scaffold \<Rightarrow> scaffold list" where
  "add S x = (if contains S x then S else S @ [x])"

text \<open>
  The molecules a call of the engine returns are new objects, and
  \<^verbatim>\<open>{Scaffold(f) for f in ...}\<close> makes a Scaffold of each before the set is built.
\<close>

fun new_mols :: "store \<Rightarrow> mol list \<Rightarrow> store \<times> addr list" where
  "new_mols s [] = (s, [])"
| "new_mols s (m # ms) =
     (case new_mol s m of (s1, a) \<Rightarrow>
      case new_mols s1 ms of (s2, as) \<Rightarrow> (s2, a # as))"

fun Scaffolds :: "engine \<Rightarrow> store \<Rightarrow> addr list \<Rightarrow> store \<times> scaffold list" where
  "Scaffolds eng s [] = (s, [])"
| "Scaffolds eng s (f # fs) =
     (case Scaffold eng s f of (s1, x) \<Rightarrow>
      case Scaffolds eng s1 fs of (s2, xs) \<Rightarrow> (s2, x # xs))"


section \<open>The candidate validator\<close>

text \<open>
  \<^verbatim>\<open>get_scaffold_frags(frag)\<close>: partial sanitization in a \<^verbatim>\<open>try\<close> that catches
  \<^verbatim>\<open>ValueError\<close> and returns the empty set; otherwise the set of the Scaffolds of the
  connected components.
\<close>

definition get_scaffold_frags :: "engine \<Rightarrow> store \<Rightarrow> addr \<Rightarrow> store \<times> (exn + scaffold list)" where
  "get_scaffold_frags eng s frag =
     (case SanitizeMol eng (cells s frag) of
        (m, Some ValueError) \<Rightarrow> (set_mol s frag m, Inr [])
      | (m, Some e) \<Rightarrow> (set_mol s frag m, Inl e)
      | (m, None) \<Rightarrow>
          (case new_mols (set_mol s frag m) (GetMolFrags eng m) of (s1, fs) \<Rightarrow>
           case Scaffolds eng s1 fs of (s2, xs) \<Rightarrow> (s2, Inr (foldl add [] xs))))"


section \<open>The ring fragmenter\<close>

text \<open>
  \<^verbatim>\<open>MurckoRingFragmenter.fragment\<close>. For each ring: the first loop goes over the atoms
  of the ring and collects the atoms to remove in a copy of the molecule; the second
  marks the bonds of the ring that lie in no other ring and whose ends both stay; scheme 4
  turns the one shared bond of a three-membered ring with one heteroatom into a double
  bond; then the bonds and atoms are removed, highest atom index first, and the candidate
  is validated. A parent is kept if it has one ring less than the scaffold.
\<close>

text \<open>
  Lines 147 to 154: the loop over \<^verbatim>\<open>zip(ring.aix, ring.atoms)\<close>. The ring counts come
  from the ring information of the scaffold's molecule and the degree from the atom of the
  scaffold's molecule; the collector and the corrector get the atom of the copy.
\<close>

fun mark_ring_atoms ::
    "store \<Rightarrow> scaffold \<Rightarrow> addr \<Rightarrow> (nat \<times> atom_ref) list \<Rightarrow> nat set \<Rightarrow> store \<times> nat set" where
  "mark_ring_atoms s scaffold edit [] remove = (s, remove)"
| "mark_ring_atoms s scaffold edit ((index, atom) # rest) remove =
     (if NumAtomRings (cells s (mol scaffold)) index = 1 then
        (if GetDegree s atom > 2 then
           (case collect_linker_atoms s (GetAtomWithIdx edit index) remove True of
              (s1, removable, _) \<Rightarrow> mark_ring_atoms s1 scaffold edit rest removable)
         else mark_ring_atoms s scaffold edit rest (insert index remove))
      else mark_ring_atoms (correct_atom_props s (GetAtomWithIdx edit index)) scaffold edit rest remove)"

text \<open>
  Lines 159 to 166: the loop over the bonds of the ring that lie in this ring only.
  \<^verbatim>\<open>remove_bonds\<close> is a set of pairs of atom indices.
\<close>

fun mark_ring_bonds ::
    "store \<Rightarrow> addr \<Rightarrow> nat set \<Rightarrow> nat list \<Rightarrow> (nat \<times> nat) list \<Rightarrow> store \<times> (nat \<times> nat) list" where
  "mark_ring_bonds s edit remove [] remove_bonds = (s, remove_bonds)"
| "mark_ring_bonds s edit remove (b_ix # rest) remove_bonds =
     (let bond = GetBondWithIdx edit b_ix;
          b_x = GetBeginAtomIdx s bond;
          b_y = GetEndAtomIdx s bond in
      if b_x \<notin> remove \<and> b_y \<notin> remove then
        mark_ring_bonds
          (correct_atom_props (correct_atom_props s (GetAtomWithIdx edit b_x)) (GetAtomWithIdx edit b_y))
          edit remove rest (List.insert (b_x, b_y) remove_bonds)
      else mark_ring_bonds s edit remove rest remove_bonds)"

text \<open>
  The two set comprehensions over \<^verbatim>\<open>ring.bix\<close>, lines 160 and 172.
\<close>

definition unshared_bonds :: "mol \<Rightarrow> ring \<Rightarrow> nat list" where
  "unshared_bonds m ring = remdups (filter (\<lambda>x. NumBondRings m x = 1) (bix ring))"

definition shared_bonds :: "mol \<Rightarrow> ring \<Rightarrow> nat list" where
  "shared_bonds m ring = remdups (filter (\<lambda>x. NumBondRings m x > 1) (bix ring))"

text \<open>
  Lines 169 to 175, for \<^verbatim>\<open>use_scheme_4\<close> other than \<^verbatim>\<open>False\<close>.
\<close>

definition scheme_4 :: "store \<Rightarrow> scaffold \<Rightarrow> addr \<Rightarrow> ring \<Rightarrow> store" where
  "scheme_4 s scaffold edit ring =
     (if length (aix ring) = 3 then
        (let atomic_nums = map (GetAtomicNum s) (ring_atoms scaffold ring) in
         if length (filter (\<lambda>a. a \<noteq> 1 \<and> a \<noteq> 6) atomic_nums) = 1 then
           (let shared = shared_bonds (cells s (mol scaffold)) ring in
            if length shared = 1 then SetBondType s (GetBondWithIdx edit (hd shared)) DOUBLE
            else s)
         else s)
      else s)"

text \<open>
  The state of one pass of the loop over the rings when the removals start: the store,
  the copy \<^verbatim>\<open>edit\<close>, and the sets \<^verbatim>\<open>remove_atoms\<close> and \<^verbatim>\<open>remove_bonds\<close>.
  \<open>mark_ring\<close> is lines 143 to 175, \<open>apply_removals\<close> lines 178 to 181.
\<close>

record ring_edit =
  edited :: store
  edit_mol :: addr
  edit_remove_atoms :: "nat set"
  edit_remove_bonds :: "(nat \<times> nat) list"

definition mark_ring :: "bool \<Rightarrow> store \<Rightarrow> scaffold \<Rightarrow> ring \<Rightarrow> ring_edit" where
  "mark_ring use_scheme_4 s scaffold ring =
     (case RWMol s (mol scaffold) of (s1, edit) \<Rightarrow>
      case mark_ring_atoms s1 scaffold edit (zip (aix ring) (ring_atoms scaffold ring)) {} of
        (s2, remove) \<Rightarrow>
      case mark_ring_bonds s2 edit remove (unshared_bonds (cells s2 (mol scaffold)) ring) [] of
        (s3, remove_bonds) \<Rightarrow>
      \<lparr>edited = (if use_scheme_4 then scheme_4 s3 scaffold edit ring else s3),
       edit_mol = edit, edit_remove_atoms = remove, edit_remove_bonds = remove_bonds\<rparr>)"

definition RemoveBonds :: "store \<Rightarrow> addr \<Rightarrow> (nat \<times> nat) list \<Rightarrow> store" where
  "RemoveBonds s edit remove_bonds = foldl (\<lambda>s1 b_ix. RemoveBond s1 edit b_ix) s remove_bonds"

definition RemoveAtoms :: "store \<Rightarrow> addr \<Rightarrow> nat set \<Rightarrow> store" where
  "RemoveAtoms s edit remove =
     foldl (\<lambda>s1 a_ix. RemoveAtom s1 edit a_ix) s (rev (sorted_list_of_set remove))"

definition apply_removals :: "ring_edit \<Rightarrow> store" where
  "apply_removals e =
     RemoveAtoms (RemoveBonds (edited e) (edit_mol e) (edit_remove_bonds e)) (edit_mol e)
       (edit_remove_atoms e)"

text \<open>
  Lines 184 to 187: the parents of this ring are the validated fragments with one ring
  less than the scaffold, tagged with the index of the ring. Python integers are
  unbounded, so \<^verbatim>\<open>len(rings) - 1\<close> is computed in \<open>int\<close>.
\<close>

definition tag_parents :: "nat \<Rightarrow> nat \<Rightarrow> scaffold list \<Rightarrow> scaffold list" where
  "tag_parents n rix frags =
     map (\<lambda>parent. parent\<lparr>removed_ring_idx := Some rix\<rparr>)
       (filter (\<lambda>parent. int (length (rings parent)) = int n - 1) frags)"

fun fragment_rings ::
    "engine \<Rightarrow> bool \<Rightarrow> store \<Rightarrow> scaffold \<Rightarrow> (nat \<times> ring) list \<Rightarrow> scaffold list
       \<Rightarrow> store \<times> (exn + scaffold list)" where
  "fragment_rings eng use_scheme_4 s scaffold [] parents = (s, Inr parents)"
| "fragment_rings eng use_scheme_4 s scaffold ((rix, ring) # rest) parents =
     (let e = mark_ring use_scheme_4 s scaffold ring in
      case get_scaffold_frags eng (apply_removals e) (edit_mol e) of
        (s1, Inl err) \<Rightarrow> (s1, Inl err)
      | (s1, Inr frags) \<Rightarrow>
          fragment_rings eng use_scheme_4 s1 scaffold rest
            (parents @ tag_parents (length (rings scaffold)) rix frags))"

definition MurckoRingFragmenter_fragment ::
    "engine \<Rightarrow> bool \<Rightarrow> store \<Rightarrow> scaffold \<Rightarrow> store \<times> (exn + scaffold list)" where
  "MurckoRingFragmenter_fragment eng use_scheme_4 s scaffold =
     fragment_rings eng use_scheme_4 s scaffold (enumerate 0 (rings scaffold)) []"



section \<open>The ring-system fragmenter\<close>

text \<open>
  \<^verbatim>\<open>MurckoRingSystemFragmenter.fragment\<close>: nothing to do for a scaffold with one ring
  system; otherwise, for each ring system, all its atoms and the linkers that hang on it
  are removed, and a parent is kept if it has one ring system less than the scaffold.
\<close>

fun mark_system_atoms ::
    "store \<Rightarrow> scaffold \<Rightarrow> addr \<Rightarrow> (nat \<times> atom_ref) list \<Rightarrow> nat set \<Rightarrow> store \<times> nat set" where
  "mark_system_atoms s scaffold edit [] remove = (s, remove)"
| "mark_system_atoms s scaffold edit ((index, atom) # rest) remove =
     (if NumAtomRings (cells s (mol scaffold)) index = 1 then
        (if GetDegree s atom > 2 then
           (case collect_linker_atoms s (GetAtomWithIdx edit index) remove True of
              (s1, removable, _) \<Rightarrow> mark_system_atoms s1 scaffold edit rest removable)
         else mark_system_atoms s scaffold edit rest (insert index remove))
      else mark_system_atoms s scaffold edit rest (insert index remove))"

definition remove_system :: "store \<Rightarrow> scaffold \<Rightarrow> ring \<Rightarrow> store \<times> addr" where
  "remove_system s scaffold ring =
     (case RWMol s (mol scaffold) of (s1, edit) \<Rightarrow>
      case mark_system_atoms s1 scaffold edit (zip (aix ring) (ring_atoms scaffold ring)) {} of
        (s2, remove) \<Rightarrow> (RemoveAtoms s2 edit remove, edit))"

definition tag_system_parents :: "nat \<Rightarrow> nat \<Rightarrow> scaffold list \<Rightarrow> scaffold list" where
  "tag_system_parents n rix frags =
     map (\<lambda>parent. parent\<lparr>removed_ring_idx := Some rix\<rparr>)
       (filter (\<lambda>parent. int (length (ring_systems parent)) = int n - 1) frags)"

fun fragment_systems ::
    "engine \<Rightarrow> store \<Rightarrow> scaffold \<Rightarrow> (nat \<times> ring) list \<Rightarrow> scaffold list
       \<Rightarrow> store \<times> (exn + scaffold list)" where
  "fragment_systems eng s scaffold [] parents = (s, Inr parents)"
| "fragment_systems eng s scaffold ((rix, ring) # rest) parents =
     (case remove_system s scaffold ring of (s1, edit) \<Rightarrow>
      case get_scaffold_frags eng s1 edit of
        (s2, Inl err) \<Rightarrow> (s2, Inl err)
      | (s2, Inr frags) \<Rightarrow>
          fragment_systems eng s2 scaffold rest
            (parents @ tag_system_parents (length (ring_systems scaffold)) rix frags))"

definition MurckoRingSystemFragmenter_fragment ::
    "engine \<Rightarrow> store \<Rightarrow> scaffold \<Rightarrow> store \<times> (exn + scaffold list)" where
  "MurckoRingSystemFragmenter_fragment eng s scaffold =
     (if length (ring_systems scaffold) = 1 then (s, Inr [])
      else fragment_systems eng s scaffold (enumerate 0 (ring_systems scaffold)) [])"


section \<open>Hierarchy enumeration\<close>

text \<open>
  The two fragmenters, and the count each of them asks to go down by one.
\<close>

datatype Fragmenter = MurckoRingFragmenter bool | MurckoRingSystemFragmenter

fun fragment :: "engine \<Rightarrow> Fragmenter \<Rightarrow> store \<Rightarrow> scaffold \<Rightarrow> store \<times> (exn + scaffold list)" where
  "fragment eng (MurckoRingFragmenter use_scheme_4) s scaffold =
     MurckoRingFragmenter_fragment eng use_scheme_4 s scaffold"
| "fragment eng MurckoRingSystemFragmenter s scaffold =
     MurckoRingSystemFragmenter_fragment eng s scaffold"

fun level :: "Fragmenter \<Rightarrow> scaffold \<Rightarrow> nat" where
  "level (MurckoRingFragmenter use_scheme_4) x = length (rings x)"
| "level MurckoRingSystemFragmenter x = length (ring_systems x)"

subsection \<open>A fragmenter only returns scaffolds one level down\<close>

lemma tag_parents_level:
  "p \<in> set (tag_parents n rix frags) \<Longrightarrow> int (length (rings p)) = int n - 1"
  by (auto simp: tag_parents_def)

lemma tag_system_parents_level:
  "p \<in> set (tag_system_parents n rix frags) \<Longrightarrow> int (length (ring_systems p)) = int n - 1"
  by (auto simp: tag_system_parents_def)

lemma fragment_rings_level:
  assumes "fragment_rings eng u s x rs parents = (s', Inr out)"
    and "\<forall>p\<in>set parents. int (length (rings p)) = int (length (rings x)) - 1"
  shows "\<forall>p\<in>set out. int (length (rings p)) = int (length (rings x)) - 1"
  using assms
proof (induction rs arbitrary: s parents)
  case Nil
  then show ?case by simp
next
  case (Cons r rs)
  obtain rix ring where r: "r = (rix, ring)" by (cases r)
  let ?e = "mark_ring u s x ring"
  obtain s1 res where g: "get_scaffold_frags eng (apply_removals ?e) (edit_mol ?e) = (s1, res)"
    by (cases "get_scaffold_frags eng (apply_removals ?e) (edit_mol ?e)")
  show ?case
  proof (cases res)
    case (Inl err)
    then show ?thesis using Cons.prems(1) by (simp add: r g Let_def)
  next
    case (Inr frags)
    have "fragment_rings eng u s1 x rs (parents @ tag_parents (length (rings x)) rix frags)
            = (s', Inr out)"
      using Cons.prems(1) by (simp add: r g Inr Let_def)
    moreover have "\<forall>p\<in>set (parents @ tag_parents (length (rings x)) rix frags).
        int (length (rings p)) = int (length (rings x)) - 1"
      using Cons.prems(2) tag_parents_level by auto
    ultimately show ?thesis by (rule Cons.IH)
  qed
qed

lemma fragment_systems_level:
  assumes "fragment_systems eng s x rs parents = (s', Inr out)"
    and "\<forall>p\<in>set parents. int (length (ring_systems p)) = int (length (ring_systems x)) - 1"
  shows "\<forall>p\<in>set out. int (length (ring_systems p)) = int (length (ring_systems x)) - 1"
  using assms
proof (induction rs arbitrary: s parents)
  case Nil
  then show ?case by simp
next
  case (Cons r rs)
  obtain rix ring where r: "r = (rix, ring)" by (cases r)
  obtain s1 edit where m: "remove_system s x ring = (s1, edit)" by (cases "remove_system s x ring")
  obtain s2 res where g: "get_scaffold_frags eng s1 edit = (s2, res)"
    by (cases "get_scaffold_frags eng s1 edit")
  show ?case
  proof (cases res)
    case (Inl err)
    then show ?thesis using Cons.prems(1) by (simp add: r m g)
  next
    case (Inr frags)
    have "fragment_systems eng s2 x rs
            (parents @ tag_system_parents (length (ring_systems x)) rix frags) = (s', Inr out)"
      using Cons.prems(1) by (simp add: r m g Inr)
    moreover have "\<forall>p\<in>set (parents @ tag_system_parents (length (ring_systems x)) rix frags).
        int (length (ring_systems p)) = int (length (ring_systems x)) - 1"
      using Cons.prems(2) tag_system_parents_level by auto
    ultimately show ?thesis by (rule Cons.IH)
  qed
qed

lemma fragment_level:
  assumes "fragment eng f s x = (s', Inr out)" and "p \<in> set out"
  shows "Suc (level f p) = level f x"
proof (cases f)
  case (MurckoRingFragmenter u)
  have "\<forall>p\<in>set out. int (length (rings p)) = int (length (rings x)) - 1"
    by (rule fragment_rings_level [of eng u s x "enumerate 0 (rings x)" "[]" s'])
      (use assms(1) MurckoRingFragmenter in \<open>simp_all add: MurckoRingFragmenter_fragment_def\<close>)
  then show ?thesis using assms(2) MurckoRingFragmenter by fastforce
next
  case MurckoRingSystemFragmenter
  show ?thesis
  proof (cases "length (ring_systems x) = 1")
    case True
    then show ?thesis
      using assms MurckoRingSystemFragmenter
      by (simp add: MurckoRingSystemFragmenter_fragment_def)
  next
    case False
    have "\<forall>p\<in>set out. int (length (ring_systems p)) = int (length (ring_systems x)) - 1"
      by (rule fragment_systems_level [of eng s x "enumerate 0 (ring_systems x)" "[]" s'])
        (use assms(1) MurckoRingSystemFragmenter False in
          \<open>simp_all add: MurckoRingSystemFragmenter_fragment_def\<close>)
    then show ?thesis using assms(2) MurckoRingSystemFragmenter by fastforce
  qed
qed

text \<open>
  \<^verbatim>\<open>recursive_generation(child)\<close> inside \<^verbatim>\<open>get_all_murcko_fragments\<close>: each parent of
  the child that is not yet in the set \<^verbatim>\<open>parents\<close> is added to it and fragmented in
  turn. \<open>generation_loop\<close> is the loop over the parents still to look at. An exception
  of the engine ends the enumeration.
\<close>

function recursive_generation ::
    "engine \<Rightarrow> Fragmenter \<Rightarrow> store \<Rightarrow> scaffold list \<Rightarrow> scaffold \<Rightarrow> store \<times> (exn + scaffold list)"
  and generation_loop ::
    "engine \<Rightarrow> Fragmenter \<Rightarrow> store \<Rightarrow> scaffold list \<Rightarrow> scaffold list
       \<Rightarrow> store \<times> (exn + scaffold list)" where
  "recursive_generation eng fragmenter s parents child =
     (case fragment eng fragmenter s child of
        (s1, Inl err) \<Rightarrow> (s1, Inl err)
      | (s1, Inr found) \<Rightarrow> generation_loop eng fragmenter s1 parents found)"
| "generation_loop eng fragmenter s parents [] = (s, Inr parents)"
| "generation_loop eng fragmenter s parents (parent # rest) =
     (if contains parents parent then generation_loop eng fragmenter s parents rest
      else
        (case recursive_generation eng fragmenter s (add parents parent) parent of
           (s1, Inl err) \<Rightarrow> (s1, Inl err)
         | (s1, Inr parents1) \<Rightarrow> generation_loop eng fragmenter s1 parents1 rest))"
  by pat_completeness auto

definition top_level :: "Fragmenter \<Rightarrow> scaffold list \<Rightarrow> nat" where
  "top_level f xs = (if xs = [] then 0 else Suc (Max (level f ` set xs)))"

lemma top_level_found:
  assumes "fragment eng f s x = (s', Inr found)"
  shows "top_level f found \<le> level f x"
proof (cases "found = []")
  case True
  then show ?thesis by (simp add: top_level_def)
next
  case False
  have "\<forall>n\<in>level f ` set found. Suc n = level f x"
    using fragment_level [OF assms] by auto
  then have "Max (level f ` set found) < level f x"
    using False by (subst Max_less_iff) auto
  then show ?thesis using False by (simp add: top_level_def Suc_le_eq)
qed

lemma top_level_head: "level f p < top_level f (p # rest)"
  by (simp add: top_level_def less_Suc_eq_le)

lemma top_level_tail: "top_level f rest \<le> top_level f (p # rest)"
  by (auto simp: top_level_def intro!: Max_mono)

lemma generation_total: "All recursive_generation_generation_loop_dom"
proof (relation "inv_image (less_than <*lex*> less_than <*lex*> less_than)
     (\<lambda>x. case x of
        Inl (eng, f, s, parents, child) \<Rightarrow> (level f child, 1::nat, 0::nat)
      | Inr (eng, f, s, parents, found) \<Rightarrow> (top_level f found, 0, length found))", goal_cases)
  case 1
  show ?case by auto
next
  case (2 eng f s parents child s1 r found)
  have "fragment eng f s child = (s1, Inr found)" using 2 by simp
  from top_level_found [OF this] show ?case by auto
next
  case (3 eng f s parents parent rest)
  show ?case using top_level_tail [of f rest parent] by auto
next
  case (4 eng f s parents parent rest)
  show ?case using top_level_head [of f parent rest] by auto
next
  case (5 eng f s parents parent rest s1 r parents1)
  show ?case using top_level_tail [of f rest parent] by auto
qed

termination recursive_generation
  by (rule generation_total)

text \<open>
  \<^verbatim>\<open>get_all_murcko_fragments(mol, break_fused_rings)\<close>: the Murcko scaffold of the
  molecule is a new molecule, its stereochemistry is removed in place, and the
  enumeration starts from the set that holds its Scaffold. The result lists the molecules
  of the Scaffolds found.
\<close>

definition get_all_murcko_fragments ::
    "engine \<Rightarrow> store \<Rightarrow> addr \<Rightarrow> bool \<Rightarrow> store \<times> (exn + addr list)" where
  "get_all_murcko_fragments eng s m break_fused_rings =
     (let fragmenter = (if break_fused_rings then MurckoRingFragmenter False
                        else MurckoRingSystemFragmenter) in
      case new_mol s (GetScaffoldForMol eng (cells s m)) of (s1, murcko) \<Rightarrow>
      case Scaffold eng (set_mol s1 murcko (RemoveStereochemistry eng (cells s1 murcko))) murcko of
        (s2, scaffold) \<Rightarrow>
      case recursive_generation eng fragmenter s2 [scaffold] scaffold of
        (s3, Inl err) \<Rightarrow> (s3, Inl err)
      | (s3, Inr parents) \<Rightarrow> (s3, Inr (map mol parents)))"


section \<open>Properties of the atom property corrector\<close>

lemma atom_at_update_atom_same:
  "valid_atom s a \<Longrightarrow> atom_at (update_atom s a f) a = f (atom_at s a)"
  by (simp add: atom_at_def update_atom_def valid_atom_def)

lemma valid_atom_update_atom:
  "valid_atom (update_atom s a f) b = valid_atom s b"
  by (simp add: update_atom_def valid_atom_def)

text \<open>
  C7. For every atom handed to the corrector: an aromatic atom whose element is not carbon
  ends with explicit-hydrogen count 1 (its other annotations as they were); otherwise an
  atom that suppresses implicit hydrogens or has a defined chirality tag ends with the
  suppression flag cleared, explicit-hydrogen count 0 and chirality tag unspecified; in
  every other case the store is left as it was.
\<close>

theorem correct_atom_props_cases:
  assumes "valid_atom s a"
  shows "(GetIsAromatic s a \<and> GetAtomicNum s a \<noteq> 6 \<longrightarrow>
            atom_at (correct_atom_props s a) a = (atom_at s a)\<lparr>num_explicit_hs := 1\<rparr>)
       \<and> (\<not> (GetIsAromatic s a \<and> GetAtomicNum s a \<noteq> 6) \<and>
            (GetNoImplicit s a \<or> GetChiralTag s a \<noteq> CHI_UNSPECIFIED) \<longrightarrow>
            atom_at (correct_atom_props s a) a =
              (atom_at s a)\<lparr>num_explicit_hs := 0, no_implicit := False,
                             chiral_tag := CHI_UNSPECIFIED\<rparr>)
       \<and> (\<not> (GetIsAromatic s a \<and> GetAtomicNum s a \<noteq> 6) \<and>
            \<not> (GetNoImplicit s a \<or> GetChiralTag s a \<noteq> CHI_UNSPECIFIED) \<longrightarrow>
            correct_atom_props s a = s)"
proof (intro conjI impI)
  assume "GetIsAromatic s a \<and> GetAtomicNum s a \<noteq> 6"
  then show "atom_at (correct_atom_props s a) a = (atom_at s a)\<lparr>num_explicit_hs := 1\<rparr>"
    using assms
    by (simp add: correct_atom_props_def SetNumExplicitHs_def atom_at_update_atom_same)
next
  assume h: "\<not> (GetIsAromatic s a \<and> GetAtomicNum s a \<noteq> 6) \<and>
             (GetNoImplicit s a \<or> GetChiralTag s a \<noteq> CHI_UNSPECIFIED)"
  let ?s1 = "SetNoImplicit s a False"
  let ?s2 = "SetNumExplicitHs ?s1 a 0"
  have v1: "valid_atom ?s1 a" using assms
    by (simp add: SetNoImplicit_def valid_atom_update_atom)
  have v2: "valid_atom ?s2 a" using v1
    by (simp add: SetNumExplicitHs_def valid_atom_update_atom)
  have "atom_at (SetChiralTag ?s2 a CHI_UNSPECIFIED) a =
          (atom_at s a)\<lparr>num_explicit_hs := 0, no_implicit := False,
                         chiral_tag := CHI_UNSPECIFIED\<rparr>"
    using assms v1 v2
    by (simp add: SetChiralTag_def SetNumExplicitHs_def SetNoImplicit_def
        atom_at_update_atom_same)
  with h show "atom_at (correct_atom_props s a) a =
          (atom_at s a)\<lparr>num_explicit_hs := 0, no_implicit := False,
                         chiral_tag := CHI_UNSPECIFIED\<rparr>"
    by (auto simp: correct_atom_props_def)
next
  assume "\<not> (GetIsAromatic s a \<and> GetAtomicNum s a \<noteq> 6) \<and>
          \<not> (GetNoImplicit s a \<or> GetChiralTag s a \<noteq> CHI_UNSPECIFIED)"
  then show "correct_atom_props s a = s"
    by (auto simp: correct_atom_props_def)
qed

text \<open>
  Three atoms that meet the three cases: an aromatic nitrogen, a carbon with a chirality
  tag and suppressed implicit hydrogens, and a plain carbon.
\<close>

definition three_atoms :: store where
  "three_atoms =
     \<lparr>cells = (\<lambda>_. \<lparr>atoms =
          [\<lparr>atomic_num = 7, is_aromatic = True, num_explicit_hs = 0, no_implicit = False,
            chiral_tag = CHI_UNSPECIFIED\<rparr>,
           \<lparr>atomic_num = 6, is_aromatic = False, num_explicit_hs = 1, no_implicit = True,
            chiral_tag = CHI_TETRAHEDRAL_CW\<rparr>,
           \<lparr>atomic_num = 6, is_aromatic = False, num_explicit_hs = 0, no_implicit = False,
            chiral_tag = CHI_UNSPECIFIED\<rparr>],
          bonds = [], ring_info = []\<rparr>),
      fresh = 1\<rparr>"

theorem correct_atom_props_cases_witness:
  "valid_atom three_atoms (0, 0) \<and> valid_atom three_atoms (0, 1) \<and> valid_atom three_atoms (0, 2)
   \<and> atom_at (correct_atom_props three_atoms (0, 0)) (0, 0) =
        \<lparr>atomic_num = 7, is_aromatic = True, num_explicit_hs = 1, no_implicit = False,
         chiral_tag = CHI_UNSPECIFIED\<rparr>
   \<and> atom_at (correct_atom_props three_atoms (0, 1)) (0, 1) =
        \<lparr>atomic_num = 6, is_aromatic = False, num_explicit_hs = 0, no_implicit = False,
         chiral_tag = CHI_UNSPECIFIED\<rparr>
   \<and> correct_atom_props three_atoms (0, 2) = three_atoms"
proof -
  have v: "valid_atom three_atoms (0, 0)" "valid_atom three_atoms (0, 1)"
    "valid_atom three_atoms (0, 2)"
    by (simp_all add: valid_atom_def three_atoms_def)
  have r: "GetIsAromatic three_atoms (0, 0)" "GetAtomicNum three_atoms (0, 0) = 7"
    "\<not> GetIsAromatic three_atoms (0, 1)" "GetNoImplicit three_atoms (0, 1)"
    "\<not> GetIsAromatic three_atoms (0, 2)" "\<not> GetNoImplicit three_atoms (0, 2)"
    "GetChiralTag three_atoms (0, 2) = CHI_UNSPECIFIED"
    "atom_at three_atoms (0, 0) = \<lparr>atomic_num = 7, is_aromatic = True, num_explicit_hs = 0,
       no_implicit = False, chiral_tag = CHI_UNSPECIFIED\<rparr>"
    "atom_at three_atoms (0, 1) = \<lparr>atomic_num = 6, is_aromatic = False, num_explicit_hs = 1,
       no_implicit = True, chiral_tag = CHI_TETRAHEDRAL_CW\<rparr>"
    by (simp_all add: GetIsAromatic_def GetAtomicNum_def GetNoImplicit_def GetChiralTag_def
        atom_at_def three_atoms_def)
  show ?thesis
    using v r correct_atom_props_cases [OF v(1)] correct_atom_props_cases [OF v(2)]
      correct_atom_props_cases [OF v(3)]
    by simp
qed

section \<open>Properties of the linker collector\<close>

subsection \<open>The traversal changes annotations only\<close>

definition same_structure :: "store \<Rightarrow> store \<Rightarrow> bool" where
  "same_structure s s' =
     (\<forall>k. bonds (cells s' k) = bonds (cells s k) \<and> ring_info (cells s' k) = ring_info (cells s k)
        \<and> length (atoms (cells s' k)) = length (atoms (cells s k)))"

lemma same_structure_refl: "same_structure s s"
  by (simp add: same_structure_def)

lemma same_structure_trans: "same_structure a b \<Longrightarrow> same_structure b c \<Longrightarrow> same_structure a c"
  by (simp add: same_structure_def)

lemma same_structure_update_atom: "same_structure s (update_atom s a f)"
  by (simp add: same_structure_def update_atom_def)

lemma same_structure_correct_atom_props: "same_structure s (correct_atom_props s a)"
proof -
  have "same_structure s (update_atom (update_atom (update_atom s a f) a g) a h)" for f g h
    by (meson same_structure_trans same_structure_update_atom)
  then show ?thesis
    by (simp add: correct_atom_props_def SetNumExplicitHs_def SetNoImplicit_def SetChiralTag_def
        same_structure_refl same_structure_update_atom)
qed

lemma same_structure_reads:
  assumes "same_structure s s'"
  shows "GetBonds s' = GetBonds s" "GetDegree s' = GetDegree s" "GetOtherAtom s' = GetOtherAtom s"
    "GetNeighbors s' = GetNeighbors s" "GetBondType s' = GetBondType s"
    "AtomIsInRing s' = AtomIsInRing s" "BondIsInRing s' = BondIsInRing s"
    "non_terminal_branches s' = non_terminal_branches s"
proof -
  have b: "\<And>k. bonds (cells s' k) = bonds (cells s k)"
    and r: "\<And>k. ring_info (cells s' k) = ring_info (cells s k)"
    using assms by (simp_all add: same_structure_def)
  show 1: "GetBonds s' = GetBonds s" by (intro ext) (simp add: GetBonds_def b)
  show 2: "GetDegree s' = GetDegree s" by (intro ext) (simp add: GetDegree_def 1)
  show 3: "GetOtherAtom s' = GetOtherAtom s" by (intro ext) (simp add: GetOtherAtom_def bond_at_def b)
  show 4: "GetNeighbors s' = GetNeighbors s" by (intro ext) (simp add: GetNeighbors_def 1 3)
  show "GetBondType s' = GetBondType s" by (intro ext) (simp add: GetBondType_def bond_at_def b)
  show "AtomIsInRing s' = AtomIsInRing s" by (intro ext) (simp add: AtomIsInRing_def NumAtomRings_def r)
  show "BondIsInRing s' = BondIsInRing s" by (intro ext) (simp add: BondIsInRing_def NumBondRings_def r)
  show "non_terminal_branches s' = non_terminal_branches s"
    by (intro ext) (simp add: non_terminal_branches_def 2 4)
qed


subsection \<open>The branching point\<close>

text \<open>
  C4 (as amended). When the traversal meets, over a bond that is neither visited nor in a
  ring, a neighbour of degree above two with three or more non-terminal neighbours (a
  hub), the loop goes on with the state \<open>branching_point\<close> gives. If the bond is not a
  double bond, the current atom is added to the set of atoms to remove, the hub is
  property-corrected and the bond is marked visited. If the bond is a double bond, the set
  of atoms to remove, the store and the visited set stay as they were: the bond is not
  marked visited. In both cases the hub is added to the ring attachments if and only if it
  lies on a ring.
\<close>

theorem branching_point_step:
  assumes "\<not> (GetIdx bond \<in> visited c \<or> BondIsInRing (heap c) bond)"
    and "2 < GetDegree (heap c) (GetOtherAtom (heap c) bond origin_atom)"
    and "\<not> non_terminal_branches (heap c) (GetOtherAtom (heap c) bond origin_atom) < 3"
  shows "collect_bonds c origin_atom (bond # rest) =
           collect_bonds (branching_point c origin_atom (GetOtherAtom (heap c) bond origin_atom) bond)
             origin_atom rest
       \<and> (GetBondType (heap c) bond \<noteq> DOUBLE \<longrightarrow>
            remove_atoms (branching_point c origin_atom (GetOtherAtom (heap c) bond origin_atom) bond)
              = insert (GetIdx origin_atom) (remove_atoms c)
          \<and> heap (branching_point c origin_atom (GetOtherAtom (heap c) bond origin_atom) bond)
              = correct_atom_props (heap c) (GetOtherAtom (heap c) bond origin_atom)
          \<and> visited (branching_point c origin_atom (GetOtherAtom (heap c) bond origin_atom) bond)
              = insert (GetIdx bond) (visited c))
       \<and> (GetBondType (heap c) bond = DOUBLE \<longrightarrow>
            remove_atoms (branching_point c origin_atom (GetOtherAtom (heap c) bond origin_atom) bond)
              = remove_atoms c
          \<and> heap (branching_point c origin_atom (GetOtherAtom (heap c) bond origin_atom) bond)
              = heap c
          \<and> visited (branching_point c origin_atom (GetOtherAtom (heap c) bond origin_atom) bond)
              = visited c)
       \<and> ring_attachments (branching_point c origin_atom (GetOtherAtom (heap c) bond origin_atom) bond)
            = (if AtomIsInRing (heap c) (GetOtherAtom (heap c) bond origin_atom)
               then insert (GetIdx (GetOtherAtom (heap c) bond origin_atom)) (ring_attachments c)
               else ring_attachments c)"
proof -
  let ?other = "GetOtherAtom (heap c) bond origin_atom"
  have ring: "AtomIsInRing (correct_atom_props (heap c) ?other) = AtomIsInRing (heap c)"
    by (rule same_structure_reads(6) [OF same_structure_correct_atom_props])
  have step: "collect_bonds c origin_atom (bond # rest) =
      collect_bonds (branching_point c origin_atom ?other bond) origin_atom rest"
    using assms by (simp add: collect_bonds.simps(2))
  show ?thesis
    by (simp add: step branching_point_def Let_def ring)
qed

text \<open>
  A hub with a double bond: C(=C1CC1)(C2CC2)C3CC3. Atom 0 is the hub, bond 0 is the double
  bond to atom 1 of the first three-membered ring; atoms 4 and 7 attach the other two
  rings by single bonds.
\<close>

definition carbon :: atom where
  "carbon = \<lparr>atomic_num = 6, is_aromatic = False, num_explicit_hs = 0, no_implicit = False,
     chiral_tag = CHI_UNSPECIFIED\<rparr>"

definition single :: "nat \<Rightarrow> nat \<Rightarrow> bond" where
  "single x y = \<lparr>begin_atom = x, end_atom = y, bond_type = SINGLE\<rparr>"

definition methylene_hub :: mol where
  "methylene_hub =
     \<lparr>atoms = replicate 10 carbon,
      bonds = [\<lparr>begin_atom = 0, end_atom = 1, bond_type = DOUBLE\<rparr>,
               single 1 2, single 2 3, single 3 1,
               single 0 4, single 4 5, single 5 6, single 6 4,
               single 0 7, single 7 8, single 8 9, single 9 7],
      ring_info = [\<lparr>aix = [1, 2, 3], bix = [1, 2, 3]\<rparr>,
                   \<lparr>aix = [4, 5, 6], bix = [5, 6, 7]\<rparr>,
                   \<lparr>aix = [7, 8, 9], bix = [9, 10, 11]\<rparr>]\<rparr>"

definition store_of :: "mol \<Rightarrow> store" where
  "store_of m = \<lparr>cells = (\<lambda>_. m), fresh = 1\<rparr>"

definition start :: "store \<Rightarrow> nat set \<Rightarrow> collector" where
  "start s remove = \<lparr>heap = s, visited = {}, remove_atoms = remove, ring_attachments = {}\<rparr>"


theorem branching_point_step_witness:
  "\<not> (GetIdx (0::nat, 4::nat) \<in> visited (start (store_of methylene_hub) {})
        \<or> BondIsInRing (store_of methylene_hub) (0, 4))
   \<and> GetOtherAtom (store_of methylene_hub) (0, 4) (0, 4) = (0, 0)
   \<and> 2 < GetDegree (store_of methylene_hub) (0, 0)
   \<and> \<not> non_terminal_branches (store_of methylene_hub) (0, 0) < 3
   \<and> GetBondType (store_of methylene_hub) (0, 4) \<noteq> DOUBLE
   \<and> collect_bonds (start (store_of methylene_hub) {}) (0, 4) [(0, 4)] =
       branching_point (start (store_of methylene_hub) {}) (0, 4) (0, 0) (0, 4)
   \<and> remove_atoms (branching_point (start (store_of methylene_hub) {}) (0, 4) (0, 0) (0, 4)) = {4}
   \<and> visited (branching_point (start (store_of methylene_hub) {}) (0, 4) (0, 0) (0, 4)) = {4}"
proof -
  let ?c = "start (store_of methylene_hub) {}"
  have o: "GetOtherAtom (store_of methylene_hub) (0, 4) (0, 4) = (0, 0)" by code_simp
  have h1: "\<not> (GetIdx (0::nat, 4::nat) \<in> visited ?c \<or> BondIsInRing (heap ?c) (0, 4))"
    by code_simp
  have h2: "2 < GetDegree (heap ?c) (GetOtherAtom (heap ?c) (0, 4) (0, 4))" by code_simp
  have h3: "\<not> non_terminal_branches (heap ?c) (GetOtherAtom (heap ?c) (0, 4) (0, 4)) < 3"
    by code_simp
  have t: "GetBondType (heap ?c) (0, 4) \<noteq> DOUBLE" by code_simp
  have hp: "heap ?c = store_of methylene_hub" by (simp add: start_def)
  have e: "remove_atoms ?c = {}" "visited ?c = {}" "GetIdx (0::nat, 4::nat) = 4"
    by (simp_all add: start_def GetIdx_def)
  show ?thesis
    using branching_point_step [OF h1 h2 h3, of "[]"] h1 h2 h3 t
    by (simp add: hp o e)
qed

text \<open>
  The claim as the specification states it has the bond marked visited in both cases. On
  the double bond of the molecule above, met from atom 1, it is not: neither by the step
  nor at the end of the whole traversal.
\<close>

theorem branching_point_double_bond_not_visited:
  "\<not> (GetIdx (0::nat, 0::nat) \<in> visited (start (store_of methylene_hub) {})
        \<or> BondIsInRing (store_of methylene_hub) (0, 0))
   \<and> GetOtherAtom (store_of methylene_hub) (0, 0) (0, 1) = (0, 0)
   \<and> 2 < GetDegree (store_of methylene_hub) (0, 0)
   \<and> \<not> non_terminal_branches (store_of methylene_hub) (0, 0) < 3
   \<and> GetBondType (store_of methylene_hub) (0, 0) = DOUBLE
   \<and> GetIdx (0::nat, 0::nat) \<notin>
       visited (branching_point (start (store_of methylene_hub) {}) (0, 1) (0, 0) (0, 0))
   \<and> GetIdx (0::nat, 0::nat) \<notin>
       visited (collect_bonds (start (store_of methylene_hub) {}) (0, 1) [(0, 0)])
   \<and> GetIdx (0::nat, 0::nat) \<notin> visited (collect (start (store_of methylene_hub) {}) (0, 1))"
  by code_simp

subsection \<open>Ring information that fits the graph\<close>

text \<open>
  Ring perception lists cycles of the graph: an atom of a ring has at least two bonds
  that are in rings, and both ends of a bond of a ring are atoms of rings. The claims
  about rings below hold for ring information of this kind.
\<close>

definition ring_consistent :: "store \<Rightarrow> addr \<Rightarrow> bool" where
  "ring_consistent s k =
     ((\<forall>r\<in>set (ring_info (cells s k)). \<forall>i\<in>set (aix r).
         2 \<le> length (filter (BondIsInRing s) (GetBonds s (k, i))))
    \<and> (\<forall>r\<in>set (ring_info (cells s k)). \<forall>j\<in>set (bix r).
         AtomIsInRing s (k, begin_atom (bond_at s (k, j)))
       \<and> AtomIsInRing s (k, end_atom (bond_at s (k, j)))))"

lemma AtomIsInRing_iff:
  "AtomIsInRing s (k, i) \<longleftrightarrow> (\<exists>r\<in>set (ring_info (cells s k)). i \<in> set (aix r))"
  by (auto simp: AtomIsInRing_def NumAtomRings_def filter_empty_conv)

lemma BondIsInRing_iff:
  "BondIsInRing s (k, j) \<longleftrightarrow> (\<exists>r\<in>set (ring_info (cells s k)). j \<in> set (bix r))"
  by (auto simp: BondIsInRing_def NumBondRings_def filter_empty_conv)

lemma ring_atom_degree:
  assumes "ring_consistent s (fst a)" and "AtomIsInRing s a"
  shows "2 \<le> GetDegree s a"
proof -
  obtain k i where a: "a = (k, i)" by (cases a)
  have "2 \<le> length (filter (BondIsInRing s) (GetBonds s (k, i)))"
    using assms by (auto simp: a ring_consistent_def AtomIsInRing_iff)
  also have "\<dots> \<le> length (GetBonds s (k, i))" by (rule length_filter_le)
  finally show ?thesis by (simp add: GetDegree_def a)
qed

lemma ring_bond_other_end:
  assumes "ring_consistent s (fst b)" and "BondIsInRing s b" and "fst a = fst b"
  shows "AtomIsInRing s (GetOtherAtom s b a)"
proof -
  obtain k j where b: "b = (k, j)" by (cases b)
  obtain i where a: "a = (k, i)" using assms(3) b by (cases a) simp
  show ?thesis
    using assms(1,2) by (auto simp: a b ring_consistent_def BondIsInRing_iff GetOtherAtom_def)
qed

lemma GetBonds_fst: "b \<in> set (GetBonds s a) \<Longrightarrow> fst b = fst a"
  by (auto simp: GetBonds_def Let_def)

lemma GetBonds_other:
  "b \<in> set (GetBonds s a) \<Longrightarrow> b \<in> set (GetBonds s (GetOtherAtom s b a))"
  by (auto simp: GetBonds_def GetOtherAtom_def bond_at_def Let_def)

lemma GetOtherAtom_back:
  "b \<in> set (GetBonds s a) \<Longrightarrow> GetOtherAtom s b (GetOtherAtom s b a) = a"
  by (cases a) (auto simp: GetBonds_def GetOtherAtom_def bond_at_def Let_def)

lemma length_filter_mono:
  "(\<And>x. x \<in> set xs \<Longrightarrow> P x \<Longrightarrow> Q x) \<Longrightarrow> length (filter P xs) \<le> length (filter Q xs)"
  by (induction xs) auto

lemma length_filter_or:
  "(\<And>x. x \<in> set xs \<Longrightarrow> \<not> (P x \<and> Q x)) \<Longrightarrow>
     length (filter (\<lambda>x. P x \<or> Q x) xs) = length (filter P xs) + length (filter Q xs)"
  by (induction xs) auto

lemma length_filter_mem: "x \<in> set xs \<Longrightarrow> 1 \<le> length (filter (\<lambda>y. y = x) xs)"
  by (induction xs) auto

lemma reached_ring_atom_is_hub:
  assumes cons: "ring_consistent s (fst a)"
    and bond: "bond \<in> set (GetBonds s a)"
    and nr: "\<not> BondIsInRing s bond"
    and deg: "GetDegree s a \<noteq> 1"
    and ring: "AtomIsInRing s (GetOtherAtom s bond a)"
  shows "2 < GetDegree s (GetOtherAtom s bond a)
       \<and> \<not> non_terminal_branches s (GetOtherAtom s bond a) < 3"
proof -
  let ?o = "GetOtherAtom s bond a"
  let ?bs = "GetBonds s ?o"
  let ?k = "fst a"
  have ringbonds: "2 \<le> length (filter (BondIsInRing s) ?bs)"
  proof -
    obtain k i where o: "?o = (k, i)" by (cases ?o)
    have "k = fst a" using o by (metis fst_GetOtherAtom fst_conv)
    then show ?thesis
      using cons ring by (auto simp: o ring_consistent_def AtomIsInRing_iff)
  qed
  have one: "1 \<le> length (filter (\<lambda>b. b = bond) ?bs)"
    by (rule length_filter_mem) (rule GetBonds_other [OF bond])
  have disj: "length (filter (\<lambda>b. BondIsInRing s b \<or> b = bond) ?bs)
      = length (filter (BondIsInRing s) ?bs) + length (filter (\<lambda>b. b = bond) ?bs)"
    by (rule length_filter_or) (use nr in auto)
  have three: "3 \<le> length (filter (\<lambda>b. BondIsInRing s b \<or> b = bond) ?bs)"
    using ringbonds one disj by linarith
  have nonterm: "GetDegree s (GetOtherAtom s b ?o) \<noteq> 1"
    if b: "b \<in> set ?bs" and rb: "BondIsInRing s b \<or> b = bond" for b
  proof (cases "b = bond")
    case True
    then show ?thesis using GetOtherAtom_back [OF bond] deg by simp
  next
    case False
    then have r: "BondIsInRing s b" using rb by simp
    have fb: "fst b = ?k" using GetBonds_fst [OF b] by simp
    have "AtomIsInRing s (GetOtherAtom s b ?o)"
      by (rule ring_bond_other_end) (use cons r fb in simp_all)
    then have "2 \<le> GetDegree s (GetOtherAtom s b ?o)"
      by (rule ring_atom_degree [rotated]) (use cons in simp)
    then show ?thesis by simp
  qed
  have "3 \<le> length (filter (\<lambda>b. GetDegree s (GetOtherAtom s b ?o) \<noteq> 1) ?bs)"
    using three length_filter_mono [of ?bs "\<lambda>b. BondIsInRing s b \<or> b = bond"
        "\<lambda>b. GetDegree s (GetOtherAtom s b ?o) \<noteq> 1"] nonterm
    by fastforce
  moreover have "non_terminal_branches s ?o
      = length (filter (\<lambda>b. GetDegree s (GetOtherAtom s b ?o) \<noteq> 1) ?bs)"
    by (simp add: non_terminal_branches_def GetNeighbors_def filter_map comp_def)
  moreover have "length (filter (\<lambda>b. BondIsInRing s b \<or> b = bond) ?bs) \<le> GetDegree s ?o"
    unfolding GetDegree_def by (rule length_filter_le)
  ultimately show ?thesis using three by linarith
qed

subsection \<open>The traversal stays off the rings\<close>

definition safe_step :: "store \<Rightarrow> atom_ref \<Rightarrow> collector \<Rightarrow> collector \<Rightarrow> bool" where
  "safe_step s0 a c c' =
     ((\<forall>x\<in>remove_atoms c'. x \<in> remove_atoms c \<or> x = snd a \<or> \<not> AtomIsInRing s0 (fst a, x))
    \<and> (\<forall>j\<in>visited c'. j \<in> visited c \<or> \<not> BondIsInRing s0 (fst a, j))
    \<and> same_structure s0 (heap c'))"

lemma safe_step_refl: "same_structure s0 (heap c) \<Longrightarrow> safe_step s0 a c c"
  by (simp add: safe_step_def)

lemma safe_step_trans:
  "safe_step s0 a c c1 \<Longrightarrow> safe_step s0 a c1 c2 \<Longrightarrow> safe_step s0 a c c2"
  unfolding safe_step_def by blast

lemma safe_step_from_other:
  assumes "safe_step s0 b c c'" and "fst b = fst a" and "\<not> AtomIsInRing s0 b"
  shows "safe_step s0 a c c'"
proof -
  have "\<not> AtomIsInRing s0 (fst a, snd b)" using assms(2,3) by (metis prod.collapse)
  then show ?thesis using assms(1,2) unfolding safe_step_def by auto
qed

lemma safe_step_continue:
  assumes "same_structure s0 (heap c)" and "\<not> BondIsInRing s0 bond" and "fst bond = fst a"
  shows "safe_step s0 a c (continue_deletion c a (GetIdx bond))"
proof -
  have "\<not> BondIsInRing s0 (fst a, snd bond)" using assms(2,3) by (metis prod.collapse)
  then show ?thesis using assms(1)
    by (auto simp: safe_step_def continue_deletion_def GetIdx_def)
qed

lemma safe_step_terminal:
  assumes "same_structure s0 (heap c)" and "\<not> BondIsInRing s0 bond" and "fst bond = fst a"
    and "fst other = fst a" and "\<not> AtomIsInRing s0 other"
  shows "safe_step s0 a c (terminal_side_chain c a other (GetIdx bond))"
proof -
  have "\<not> BondIsInRing s0 (fst a, snd bond)" using assms(2,3) by (metis prod.collapse)
  moreover have "\<not> AtomIsInRing s0 (fst a, snd other)"
    using assms(4,5) by (metis prod.collapse)
  moreover have "same_structure s0 (correct_atom_props (heap c) a)"
    using assms(1) same_structure_correct_atom_props by (rule same_structure_trans)
  ultimately show ?thesis
    by (auto simp: safe_step_def terminal_side_chain_def GetIdx_def)
qed

lemma safe_step_branching:
  assumes "same_structure s0 (heap c)" and "\<not> BondIsInRing s0 bond" and "fst bond = fst a"
  shows "safe_step s0 a c (branching_point c a other bond)"
proof -
  have "\<not> BondIsInRing s0 (fst a, snd bond)" using assms(2,3) by (metis prod.collapse)
  moreover have "same_structure s0 (correct_atom_props (heap c) other)"
    using assms(1) same_structure_correct_atom_props by (rule same_structure_trans)
  ultimately show ?thesis using assms(1)
    by (auto simp: safe_step_def branching_point_def Let_def GetIdx_def)
qed

lemma collect_safe:
  fixes s0 :: store
  shows "same_structure s0 (heap c) \<Longrightarrow> ring_consistent s0 (fst a) \<Longrightarrow> GetDegree s0 a \<noteq> 1
           \<Longrightarrow> safe_step s0 a c (collect c a)"
    and "same_structure s0 (heap c) \<Longrightarrow> ring_consistent s0 (fst a) \<Longrightarrow> GetDegree s0 a \<noteq> 1
           \<Longrightarrow> set bs \<subseteq> set (GetBonds s0 a) \<Longrightarrow> safe_step s0 a c (collect_bonds c a bs)"
proof (induct c a and c a bs rule: collect_collect_bonds.induct)
  case (1 c origin_atom)
  have "GetBonds (heap c) = GetBonds s0" by (rule same_structure_reads(1) [OF "1.prems"(1)])
  then show ?case using 1 by (simp add: collect.simps)
next
  case (2 c origin_atom)
  then show ?case by (simp add: safe_step_refl)
next
  case (3 c a bond rest)
  note st = "3.prems"(1) and cons = "3.prems"(2) and deg = "3.prems"(3)
  note rd = same_structure_reads [OF st]
  have bond: "bond \<in> set (GetBonds s0 a)" and rest: "set rest \<subseteq> set (GetBonds s0 a)"
    using "3.prems"(4) by auto
  have fb: "fst bond = fst a" by (rule GetBonds_fst [OF bond])
  let ?other = "GetOtherAtom s0 bond a"
  let ?c1 = "continue_deletion c a (GetIdx bond)"
  have eq: "GetOtherAtom (heap c) bond a = ?other" by (simp add: rd)
  have descend: "safe_step s0 a c (collect_bonds (collect ?c1 ?other) a rest)"
    if nv: "\<not> (GetIdx bond \<in> visited c \<or> BondIsInRing (heap c) bond)"
      and notring: "\<not> AtomIsInRing s0 ?other"
      and d1: "GetDegree s0 ?other \<noteq> 1"
      and ih1: "same_structure s0 (heap ?c1) \<Longrightarrow> ring_consistent s0 (fst ?other) \<Longrightarrow>
                GetDegree s0 ?other \<noteq> 1 \<Longrightarrow> safe_step s0 ?other ?c1 (collect ?c1 ?other)"
      and ih2: "same_structure s0 (heap (collect ?c1 ?other)) \<Longrightarrow> ring_consistent s0 (fst a) \<Longrightarrow>
                GetDegree s0 a \<noteq> 1 \<Longrightarrow> set rest \<subseteq> set (GetBonds s0 a) \<Longrightarrow>
                safe_step s0 a (collect ?c1 ?other) (collect_bonds (collect ?c1 ?other) a rest)"
  proof -
    have nr: "\<not> BondIsInRing s0 bond" using nv by (simp add: rd)
    have s1: "safe_step s0 a c ?c1" by (rule safe_step_continue [OF st nr fb])
    have h1: "same_structure s0 (heap ?c1)" using st by (simp add: continue_deletion_def)
    have "safe_step s0 ?other ?c1 (collect ?c1 ?other)"
      by (rule ih1 [OF h1 _ d1]) (use cons in simp)
    then have s2: "safe_step s0 a ?c1 (collect ?c1 ?other)"
      by (rule safe_step_from_other) (use notring in simp_all)
    have h2: "same_structure s0 (heap (collect ?c1 ?other))" using s2 by (simp add: safe_step_def)
    have s3: "safe_step s0 a (collect ?c1 ?other) (collect_bonds (collect ?c1 ?other) a rest)"
      by (rule ih2 [OF h2 cons deg rest])
    show ?thesis by (rule safe_step_trans [OF safe_step_trans [OF s1 s2] s3])
  qed
  show ?case
  proof (cases "GetIdx bond \<in> visited c \<or> BondIsInRing (heap c) bond")
    case True
    then show ?thesis using "3.hyps"(1) [OF True st cons deg rest]
      by (simp add: collect_bonds.simps(2))
  next
    case nv: False
    then have nr: "\<not> BondIsInRing s0 bond" by (simp add: rd)
    have hubfact: "AtomIsInRing s0 ?other \<Longrightarrow>
        2 < GetDegree s0 ?other \<and> \<not> non_terminal_branches s0 ?other < 3"
      by (rule reached_ring_atom_is_hub [OF cons bond nr deg])
    show ?thesis
    proof (cases "GetDegree (heap c) (GetOtherAtom (heap c) bond a) = 1")
      case True
      let ?c1 = "terminal_side_chain c a (GetOtherAtom (heap c) bond a) (GetIdx bond)"
      have notring: "\<not> AtomIsInRing s0 ?other" using hubfact True by (auto simp: rd)
      have s1: "safe_step s0 a c ?c1"
        unfolding eq by (rule safe_step_terminal [OF st nr fb _ notring]) simp
      then have h1: "same_structure s0 (heap ?c1)" by (simp add: safe_step_def)
      have "safe_step s0 a ?c1 (collect_bonds ?c1 a rest)"
        by (rule "3.hyps"(2) [OF nv True h1 cons deg rest])
      with s1 have "safe_step s0 a c (collect_bonds ?c1 a rest)" by (rule safe_step_trans)
      then show ?thesis using nv True by (simp add: collect_bonds.simps(2))
    next
      case n1: False
      show ?thesis
      proof (cases "GetDegree (heap c) (GetOtherAtom (heap c) bond a) = 2")
        case True
        have notring: "\<not> AtomIsInRing s0 ?other" using hubfact True by (auto simp: rd)
        have d1: "GetDegree s0 ?other \<noteq> 1" using True by (simp add: rd)
        have "safe_step s0 a c (collect_bonds (collect ?c1 ?other) a rest)"
          by (rule descend [OF nv notring d1])
            (use "3.hyps"(3,4) [OF nv n1 True] in \<open>simp_all add: eq\<close>)
        then show ?thesis using nv n1 True by (simp add: collect_bonds.simps(2) eq)
      next
        case n2: False
        show ?thesis
        proof (cases "2 < GetDegree (heap c) (GetOtherAtom (heap c) bond a)")
          case gt: True
          show ?thesis
          proof (cases "non_terminal_branches (heap c) (GetOtherAtom (heap c) bond a) < 3")
            case True
            have notring: "\<not> AtomIsInRing s0 ?other" using hubfact True by (auto simp: rd)
            have d1: "GetDegree s0 ?other \<noteq> 1" using gt by (simp add: rd)
            have "safe_step s0 a c (collect_bonds (collect ?c1 ?other) a rest)"
              by (rule descend [OF nv notring d1])
                (use "3.hyps"(5,6) [OF nv n1 n2 gt True] in \<open>simp_all add: eq\<close>)
            then show ?thesis using nv n1 n2 gt True by (simp add: collect_bonds.simps(2) eq)
          next
            case False
            let ?c1 = "branching_point c a (GetOtherAtom (heap c) bond a) bond"
            have s1: "safe_step s0 a c ?c1" by (rule safe_step_branching [OF st nr fb])
            then have h1: "same_structure s0 (heap ?c1)" by (simp add: safe_step_def)
            have "safe_step s0 a ?c1 (collect_bonds ?c1 a rest)"
              by (rule "3.hyps"(7) [OF nv n1 n2 gt False h1 cons deg rest])
            with s1 have "safe_step s0 a c (collect_bonds ?c1 a rest)" by (rule safe_step_trans)
            then show ?thesis using nv n1 n2 gt False by (simp add: collect_bonds.simps(2))
          qed
        next
          case False
          then show ?thesis using nv n1 n2 "3.hyps"(8) [OF nv n1 n2 False st cons deg rest]
            by (simp add: collect_bonds.simps(2))
        qed
      qed
    qed
  qed
qed

lemma unique_ring:
  assumes "length (filter P xs) = 1" and "a \<in> set xs" and "P a" and "b \<in> set xs" and "P b"
  shows "a = b"
proof -
  obtain y where y: "filter P xs = [y]"
    using assms(1) by (cases "filter P xs") auto
  have "a \<in> set (filter P xs)" "b \<in> set (filter P xs)" using assms by auto
  then show ?thesis by (simp add: y)
qed

text \<open>
  C5. Take an invocation of the linker collector as the fragmenters make it: the origin
  has more than two neighbours and lies on exactly one ring, \<open>ring\<close>, and the ring
  information is consistent with the graph. Then every atom the invocation adds to the
  set of atoms to remove belongs to no ring other than \<open>ring\<close> (it is the origin, or it
  is on no ring at all), and every bond the traversal has marked, so every bond it has
  crossed, is a bond outside all rings.
\<close>

theorem collect_linker_atoms_spares_other_rings:
  assumes cons: "ring_consistent s (fst origin)"
    and deg: "2 < GetDegree s origin"
    and one: "NumAtomRings (cells s (fst origin)) (snd origin) = 1"
    and ring: "ring \<in> set (ring_info (cells s (fst origin)))"
    and mem: "snd origin \<in> set (aix ring)"
  shows "(\<forall>x\<in>fst (snd (collect_linker_atoms s origin remove include_origin)).
            x \<in> remove \<or>
            (\<forall>r\<in>set (ring_info (cells s (fst origin))). x \<in> set (aix r) \<longrightarrow> r = ring))
       \<and> (\<forall>j\<in>visited (collect (start s remove) origin). \<not> BondIsInRing s (fst origin, j))"
proof -
  let ?c = "collect (start s remove) origin"
  have safe: "safe_step s origin (start s remove) ?c"
    by (rule collect_safe(1)) (use cons deg in \<open>simp_all add: start_def same_structure_refl\<close>)
  have sub: "fst (snd (collect_linker_atoms s origin remove include_origin)) \<subseteq> remove_atoms ?c"
    by (auto simp: collect_linker_atoms_def Let_def start_def)
  have atoms: "x \<in> remove \<or>
      (\<forall>r\<in>set (ring_info (cells s (fst origin))). x \<in> set (aix r) \<longrightarrow> r = ring)"
    if x: "x \<in> remove_atoms ?c" for x
  proof -
    from safe x have "x \<in> remove \<or> x = snd origin \<or> \<not> AtomIsInRing s (fst origin, x)"
      by (auto simp: safe_step_def start_def)
    then show ?thesis
    proof (elim disjE)
      assume "x = snd origin"
      then have "\<forall>r\<in>set (ring_info (cells s (fst origin))). x \<in> set (aix r) \<longrightarrow> r = ring"
        using unique_ring [OF one [unfolded NumAtomRings_def] _ _ ring mem] by blast
      then show ?thesis ..
    qed (auto simp: AtomIsInRing_iff)
  qed
  have bonds: "\<forall>j\<in>visited ?c. \<not> BondIsInRing s (fst origin, j)"
    using safe by (auto simp: safe_step_def start_def)
  show ?thesis using sub atoms bonds by blast
qed

theorem collect_linker_atoms_spares_other_rings_witness:
  "ring_consistent (store_of methylene_hub) 0
   \<and> 2 < GetDegree (store_of methylene_hub) (0, 4)
   \<and> NumAtomRings methylene_hub 4 = 1
   \<and> fst (snd (collect_linker_atoms (store_of methylene_hub) (0, 4) {} True)) = {4}
   \<and> \<not> (\<exists>x\<in>fst (snd (collect_linker_atoms (store_of methylene_hub) (0, 4) {} True)).
          \<exists>r\<in>set (ring_info methylene_hub). x \<in> set (aix r) \<and> r \<noteq> \<lparr>aix = [4, 5, 6], bix = [5, 6, 7]\<rparr>)
   \<and> \<not> (\<exists>j\<in>visited (collect (start (store_of methylene_hub) {}) (0, 4)).
          BondIsInRing (store_of methylene_hub) (0, j))"
proof -
  let ?s = "store_of methylene_hub"
  have c: "cells ?s (fst (0::nat, 4::nat)) = methylene_hub" by (simp add: store_of_def)
  have h1: "ring_consistent ?s (fst (0::nat, 4::nat))" by code_simp
  have h2: "2 < GetDegree ?s (0, 4)" by code_simp
  have h3: "NumAtomRings (cells ?s (fst (0::nat, 4::nat))) (snd (0::nat, 4::nat)) = 1" by code_simp
  have h4: "\<lparr>aix = [4, 5, 6], bix = [5, 6, 7]\<rparr> \<in> set (ring_info (cells ?s (fst (0::nat, 4::nat))))"
    by code_simp
  have h5: "snd (0::nat, 4::nat) \<in> set (aix \<lparr>aix = [4, 5, 6], bix = [5, 6, 7]\<rparr>)" by simp
  have v: "fst (snd (collect_linker_atoms ?s (0, 4) {} True)) = {4}" by code_simp
  show ?thesis
    using collect_linker_atoms_spares_other_rings [OF h1 h2 h3 h4 h5, of "{}" True] h1 h2 h3 v
    unfolding c by auto
qed

section \<open>Example molecules and an engine for them\<close>

text \<open>
  Cyclopropane, bicyclopropyl (two three-membered rings joined by a single bond) and
  bicyclobutane (two three-membered rings that share a bond). The engine below accepts
  every molecule, takes a molecule that has atoms as one connected component, and knows
  the rings and canonical forms of cyclopropane and bicyclopropyl.
\<close>

definition three_ring :: ring where
  "three_ring = \<lparr>aix = [0, 1, 2], bix = [0, 1, 2]\<rparr>"

definition cyclopropane :: mol where
  "cyclopropane = \<lparr>atoms = replicate 3 carbon, bonds = [single 0 1, single 1 2, single 2 0],
     ring_info = [three_ring]\<rparr>"

definition bicyclopropyl :: mol where
  "bicyclopropyl =
     \<lparr>atoms = replicate 6 carbon,
      bonds = [single 0 1, single 1 2, single 2 0, single 0 3, single 3 4, single 4 5, single 5 3],
      ring_info = [three_ring, \<lparr>aix = [3, 4, 5], bix = [4, 5, 6]\<rparr>]\<rparr>"

definition demo_engine :: engine where
  "demo_engine =
     \<lparr>SanitizeMol = (\<lambda>m. (m, None)),
      GetMolFrags = (\<lambda>m. if atoms m = [] then [] else [m]),
      FindRings = (\<lambda>m. if length (atoms m) = 3 \<and> length (bonds m) = 3 then [three_ring]
                        else if length (atoms m) = 6 \<and> length (bonds m) = 7
                        then [three_ring, \<lparr>aix = [3, 4, 5], bix = [4, 5, 6]\<rparr>]
                        else []),
      FindRingSystems = ring_info,
      MolToSmiles = (\<lambda>m. if length (atoms m) = 3 then ''C1CC1''
                          else if length (atoms m) = 6 then ''C1CC1C1CC1'' else []),
      GetScaffoldForMol = (\<lambda>m. m),
      RemoveStereochemistry = (\<lambda>m. m)\<rparr>"

definition bicyclopropyl_scaffold :: scaffold where
  "bicyclopropyl_scaffold = snd (Scaffold demo_engine (store_of bicyclopropyl) 0)"



definition bicyclobutane :: mol where
  "bicyclobutane =
     \<lparr>atoms = replicate 4 carbon,
      bonds = [single 0 1, single 1 2, single 2 0, single 1 3, single 3 2],
      ring_info = [three_ring, \<lparr>aix = [1, 2, 3], bix = [1, 3, 4]\<rparr>]\<rparr>"

definition bicyclobutane_scaffold :: scaffold where
  "bicyclobutane_scaffold =
     \<lparr>mol = 0, rings = ring_info bicyclobutane,
      ring_systems = [\<lparr>aix = [0, 1, 2, 3], bix = [0, 1, 2, 3, 4]\<rparr>],
      removed_ring_idx = None, smiles = ''C1C2CC12''\<rparr>"


section \<open>Properties of the fragmenters\<close>

text \<open>
  C1. Every Scaffold in the list the ring fragmenter returns has a ring count exactly one
  less than the ring count of the scaffold it was given.
\<close>

theorem ring_fragment_one_ring_less:
  assumes "snd (MurckoRingFragmenter_fragment eng use_scheme_4 s x) = Inr parents"
  shows "\<forall>p\<in>set parents. int (length (rings p)) = int (length (rings x)) - 1
                        \<and> Suc (length (rings p)) = length (rings x)"
proof -
  obtain s' where "fragment_rings eng use_scheme_4 s x (enumerate 0 (rings x)) [] = (s', Inr parents)"
    using assms by (cases "fragment_rings eng use_scheme_4 s x (enumerate 0 (rings x)) []")
      (simp add: MurckoRingFragmenter_fragment_def)
  then have "\<forall>p\<in>set parents. int (length (rings p)) = int (length (rings x)) - 1"
    by (rule fragment_rings_level) simp
  then show ?thesis by fastforce
qed

theorem ring_fragment_one_ring_less_witness:
  "snd (MurckoRingFragmenter_fragment demo_engine False (store_of bicyclopropyl) bicyclopropyl_scaffold)
     = Inr [\<lparr>mol = 2, rings = [three_ring], ring_systems = [three_ring],
             removed_ring_idx = Some 0, smiles = ''C1CC1''\<rparr>,
            \<lparr>mol = 4, rings = [three_ring], ring_systems = [three_ring],
             removed_ring_idx = Some 1, smiles = ''C1CC1''\<rparr>]
   \<and> length (rings bicyclopropyl_scaffold) = 2
   \<and> int (length [three_ring]) = int (length (rings bicyclopropyl_scaffold)) - 1"
proof -
  have h: "snd (MurckoRingFragmenter_fragment demo_engine False (store_of bicyclopropyl)
                  bicyclopropyl_scaffold)
     = Inr [\<lparr>mol = 2, rings = [three_ring], ring_systems = [three_ring],
             removed_ring_idx = Some 0, smiles = ''C1CC1''\<rparr>,
            \<lparr>mol = 4, rings = [three_ring], ring_systems = [three_ring],
             removed_ring_idx = Some 1, smiles = ''C1CC1''\<rparr>]"
    by code_simp
  have n: "length (rings bicyclopropyl_scaffold) = 2" by code_simp
  show ?thesis using ring_fragment_one_ring_less [OF h] h n by simp
qed


text \<open>
  C2. For a scaffold with exactly one ring system, whatever its ring count, the
  ring-system fragmenter returns the empty list; it raises nothing and leaves the store as
  it was.
\<close>

theorem ring_system_fragment_single_system:
  assumes "length (ring_systems x) = 1"
  shows "MurckoRingSystemFragmenter_fragment eng s x = (s, Inr [])"
  using assms by (simp add: MurckoRingSystemFragmenter_fragment_def)

theorem ring_system_fragment_single_system_witness:
  "length (rings bicyclobutane_scaffold) = 2 \<and> length (ring_systems bicyclobutane_scaffold) = 1
   \<and> MurckoRingSystemFragmenter_fragment demo_engine (store_of bicyclobutane) bicyclobutane_scaffold
       = (store_of bicyclobutane, Inr [])"
proof -
  have h: "length (ring_systems bicyclobutane_scaffold) = 1"
    by (simp add: bicyclobutane_scaffold_def)
  have n: "length (rings bicyclobutane_scaffold) = 2"
    by (simp add: bicyclobutane_scaffold_def bicyclobutane_def)
  show ?thesis using ring_system_fragment_single_system [OF h] h n by simp
qed


section \<open>The caller's molecule is left alone\<close>

text \<open>
  \<open>kept n s s'\<close>: from \<open>s\<close> to \<open>s'\<close> no address was given up and no molecule below
  address \<open>n\<close> was changed. Everything a fragmenter writes, it writes to the copy it made
  or to the molecules of the new Scaffolds.
\<close>

definition kept :: "addr \<Rightarrow> store \<Rightarrow> store \<Rightarrow> bool" where
  "kept n s s' = (fresh s \<le> fresh s' \<and> (\<forall>a<n. cells s' a = cells s a))"

lemma kept_refl: "kept n s s"
  by (simp add: kept_def)

lemma kept_trans: "kept n a b \<Longrightarrow> kept n b c \<Longrightarrow> kept n a c"
  by (auto simp: kept_def)

lemma kept_fresh: "kept n s s' \<Longrightarrow> fresh s \<le> fresh s'"
  by (simp add: kept_def)

lemma kept_set_mol: "n \<le> a \<Longrightarrow> kept n s (set_mol s a m)"
  by (simp add: kept_def set_mol_def)

lemma kept_update_atom: "n \<le> fst a \<Longrightarrow> kept n s (update_atom s a f)"
  by (simp add: kept_def update_atom_def)

lemma kept_update_bond: "n \<le> fst b \<Longrightarrow> kept n s (update_bond s b f)"
  by (simp add: kept_def update_bond_def)

lemma kept_correct_atom_props:
  assumes "n \<le> fst a"
  shows "kept n s (correct_atom_props s a)"
proof -
  have "kept n s (update_atom (update_atom (update_atom s a f) a g) a h)" for f g h
    by (meson assms kept_trans kept_update_atom)
  then show ?thesis
    by (simp add: correct_atom_props_def SetNumExplicitHs_def SetNoImplicit_def SetChiralTag_def
        kept_refl kept_update_atom assms)
qed

lemma kept_new_mol: "new_mol s m = (s', a) \<Longrightarrow> n \<le> fresh s \<Longrightarrow> kept n s s'"
  by (auto simp: new_mol_def kept_def)

lemma new_mol_addr: "new_mol s m = (s', a) \<Longrightarrow> a = fresh s \<and> fresh s' = Suc (fresh s) \<and> cells s' a = m"
  by (auto simp: new_mol_def)

lemma collect_kept:
  fixes n :: addr
  shows "n \<le> fst a \<Longrightarrow> kept n (heap c) (heap (collect c a))"
    and "n \<le> fst a \<Longrightarrow> kept n (heap c) (heap (collect_bonds c a bs))"
proof (induct c a and c a bs rule: collect_collect_bonds.induct)
  case (1 c origin_atom)
  then show ?case by (simp add: collect.simps)
next
  case (2 c origin_atom)
  then show ?case by (simp add: kept_refl)
next
  case (3 c a bond rest)
  note n = "3.prems"
  let ?other = "GetOtherAtom (heap c) bond a"
  let ?c1 = "continue_deletion c a (GetIdx bond)"
  have no: "n \<le> fst ?other" using n by simp
  have descend: "kept n (heap c) (heap (collect_bonds (collect ?c1 ?other) a rest))"
    if "n \<le> fst ?other \<Longrightarrow> kept n (heap ?c1) (heap (collect ?c1 ?other))"
      and "n \<le> fst a \<Longrightarrow>
           kept n (heap (collect ?c1 ?other)) (heap (collect_bonds (collect ?c1 ?other) a rest))"
  proof -
    have "kept n (heap c) (heap (collect ?c1 ?other))"
      using that(1) [OF no] by (simp add: continue_deletion_def)
    then show ?thesis using that(2) [OF n] by (rule kept_trans)
  qed
  show ?case
  proof (cases "GetIdx bond \<in> visited c \<or> BondIsInRing (heap c) bond")
    case True
    then show ?thesis using "3.hyps"(1) [OF True n] by (simp add: collect_bonds.simps(2))
  next
    case nv: False
    show ?thesis
    proof (cases "GetDegree (heap c) ?other = 1")
      case True
      have "kept n (heap c) (heap (terminal_side_chain c a ?other (GetIdx bond)))"
        by (simp add: terminal_side_chain_def kept_correct_atom_props n)
      then have "kept n (heap c)
          (heap (collect_bonds (terminal_side_chain c a ?other (GetIdx bond)) a rest))"
        using "3.hyps"(2) [OF nv True n] by (rule kept_trans)
      then show ?thesis using nv True by (simp add: collect_bonds.simps(2))
    next
      case n1: False
      show ?thesis
      proof (cases "GetDegree (heap c) ?other = 2")
        case True
        show ?thesis using nv n1 True descend [OF "3.hyps"(3,4) [OF nv n1 True]]
          by (simp add: collect_bonds.simps(2))
      next
        case n2: False
        show ?thesis
        proof (cases "2 < GetDegree (heap c) ?other")
          case gt: True
          show ?thesis
          proof (cases "non_terminal_branches (heap c) ?other < 3")
            case True
            show ?thesis using nv n1 n2 gt True descend [OF "3.hyps"(5,6) [OF nv n1 n2 gt True]]
              by (simp add: collect_bonds.simps(2))
          next
            case False
            have "kept n (heap c) (heap (branching_point c a ?other bond))"
              by (simp add: branching_point_def Let_def kept_correct_atom_props n kept_refl)
            then have "kept n (heap c) (heap (collect_bonds (branching_point c a ?other bond) a rest))"
              using "3.hyps"(7) [OF nv n1 n2 gt False n] by (rule kept_trans)
            then show ?thesis using nv n1 n2 gt False by (simp add: collect_bonds.simps(2))
          qed
        next
          case False
          then show ?thesis using nv n1 n2 "3.hyps"(8) [OF nv n1 n2 False n]
            by (simp add: collect_bonds.simps(2))
        qed
      qed
    qed
  qed
qed

lemma kept_collect_linker_atoms:
  assumes "n \<le> fst origin"
  shows "kept n s (fst (collect_linker_atoms s origin remove inc))"
  using collect_kept(1) [OF assms, of "\<lparr>heap = s, visited = {}, remove_atoms = remove,
      ring_attachments = {}\<rparr>"]
  by (simp add: collect_linker_atoms_def Let_def)

lemma kept_mark_ring_atoms:
  "n \<le> edit \<Longrightarrow> kept n s (fst (mark_ring_atoms s x edit zs remove))"
proof (induction zs arbitrary: s remove)
  case Nil
  then show ?case by (simp add: kept_refl)
next
  case (Cons z zs)
  obtain index atom where z: "z = (index, atom)" by (cases z)
  have e: "n \<le> fst (GetAtomWithIdx edit index)" using Cons.prems by (simp add: GetAtomWithIdx_def)
  show ?case
  proof (cases "NumAtomRings (cells s (mol x)) index = 1")
    case one: True
    show ?thesis
    proof (cases "2 < GetDegree s atom")
      case True
      obtain s1 r1 att where c: "collect_linker_atoms s (GetAtomWithIdx edit index) remove True
          = (s1, r1, att)" by (cases "collect_linker_atoms s (GetAtomWithIdx edit index) remove True")
      have "kept n s s1" using kept_collect_linker_atoms [OF e, of s remove True] c by simp
      then have "kept n s (fst (mark_ring_atoms s1 x edit zs r1))"
        using Cons.IH [OF Cons.prems] by (rule kept_trans)
      then show ?thesis using one True by (simp add: z c)
    next
      case False
      then show ?thesis using one Cons.IH [OF Cons.prems] by (simp add: z)
    qed
  next
    case False
    have "kept n s (fst (mark_ring_atoms (correct_atom_props s (GetAtomWithIdx edit index)) x edit zs remove))"
      using kept_correct_atom_props [OF e] Cons.IH [OF Cons.prems] by (rule kept_trans)
    then show ?thesis using False by (simp add: z)
  qed
qed

lemma kept_mark_system_atoms:
  "n \<le> edit \<Longrightarrow> kept n s (fst (mark_system_atoms s x edit zs remove))"
proof (induction zs arbitrary: s remove)
  case Nil
  then show ?case by (simp add: kept_refl)
next
  case (Cons z zs)
  obtain index atom where z: "z = (index, atom)" by (cases z)
  have e: "n \<le> fst (GetAtomWithIdx edit index)" using Cons.prems by (simp add: GetAtomWithIdx_def)
  show ?case
  proof (cases "NumAtomRings (cells s (mol x)) index = 1 \<and> 2 < GetDegree s atom")
    case True
    obtain s1 r1 att where c: "collect_linker_atoms s (GetAtomWithIdx edit index) remove True
        = (s1, r1, att)" by (cases "collect_linker_atoms s (GetAtomWithIdx edit index) remove True")
    have "kept n s s1" using kept_collect_linker_atoms [OF e, of s remove True] c by simp
    then have "kept n s (fst (mark_system_atoms s1 x edit zs r1))"
      using Cons.IH [OF Cons.prems] by (rule kept_trans)
    then show ?thesis using True by (simp add: z c)
  next
    case False
    then show ?thesis using Cons.IH [OF Cons.prems] by (auto simp: z)
  qed
qed

lemma kept_mark_ring_bonds:
  "n \<le> edit \<Longrightarrow> kept n s (fst (mark_ring_bonds s edit remove bs acc))"
proof (induction bs arbitrary: s acc)
  case Nil
  then show ?case by (simp add: kept_refl)
next
  case (Cons b bs)
  have e: "n \<le> fst (GetAtomWithIdx edit i)" for i
    using Cons.prems by (simp add: GetAtomWithIdx_def)
  have "kept n s (correct_atom_props (correct_atom_props s (GetAtomWithIdx edit i)) (GetAtomWithIdx edit j))"
    for i j
    by (rule kept_trans [OF kept_correct_atom_props [OF e] kept_correct_atom_props [OF e]])
  then have "kept n s (fst (mark_ring_bonds
      (correct_atom_props (correct_atom_props s (GetAtomWithIdx edit i)) (GetAtomWithIdx edit j))
      edit remove bs acc'))" for i j acc'
    using Cons.IH [OF Cons.prems] by (rule kept_trans)
  then show ?case using Cons.IH [OF Cons.prems]
    by (simp add: Let_def)
qed

lemma kept_scheme_4: "n \<le> edit \<Longrightarrow> kept n s (scheme_4 s x edit ring)"
  by (simp add: scheme_4_def Let_def SetBondType_def GetBondWithIdx_def kept_refl kept_update_bond)

lemma kept_RemoveBond: "n \<le> edit \<Longrightarrow> kept n s (RemoveBond s edit xy)"
  by (simp add: RemoveBond_def Let_def kept_refl kept_set_mol)

lemma kept_RemoveAtom: "n \<le> edit \<Longrightarrow> kept n s (RemoveAtom s edit i)"
  by (simp add: RemoveAtom_def Let_def kept_set_mol)

lemma kept_foldl:
  assumes "\<And>s x. kept n s (f s x)"
  shows "kept n s (foldl f s xs)"
proof (induction xs arbitrary: s)
  case Nil
  show ?case by (simp add: kept_refl)
next
  case (Cons x xs)
  show ?case using assms [of s x] Cons.IH [of "f s x"] by (auto intro: kept_trans)
qed

lemma kept_RemoveBonds: "n \<le> edit \<Longrightarrow> kept n s (RemoveBonds s edit bs)"
  unfolding RemoveBonds_def by (rule kept_foldl) (rule kept_RemoveBond)

lemma kept_RemoveAtoms: "n \<le> edit \<Longrightarrow> kept n s (RemoveAtoms s edit remove)"
  unfolding RemoveAtoms_def by (rule kept_foldl) (rule kept_RemoveAtom)

lemma mark_ring_edit_mol: "edit_mol (mark_ring u s x ring) = fresh s"
  by (simp add: mark_ring_def RWMol_def new_mol_def split: prod.splits)

lemma kept_mark_ring:
  assumes "n \<le> fresh s"
  shows "kept n s (edited (mark_ring u s x ring))"
proof -
  obtain s1 edit where rw: "RWMol s (mol x) = (s1, edit)" by (cases "RWMol s (mol x)")
  obtain s2 remove where ma:
    "mark_ring_atoms s1 x edit (zip (aix ring) (ring_atoms x ring)) {} = (s2, remove)"
    by (cases "mark_ring_atoms s1 x edit (zip (aix ring) (ring_atoms x ring)) {}")
  obtain s3 rb where mb:
    "mark_ring_bonds s2 edit remove (unshared_bonds (cells s2 (mol x)) ring) [] = (s3, rb)"
    by (cases "mark_ring_bonds s2 edit remove (unshared_bonds (cells s2 (mol x)) ring) []")
  have e: "n \<le> edit" using rw assms by (auto simp: RWMol_def new_mol_def)
  have k1: "kept n s s1" using rw assms by (auto simp: RWMol_def intro: kept_new_mol)
  have k2: "kept n s1 s2" by (metis kept_mark_ring_atoms [OF e] ma fst_conv)
  have k3: "kept n s2 s3" by (metis kept_mark_ring_bonds [OF e] mb fst_conv)
  have k4: "kept n s3 (if u then scheme_4 s3 x edit ring else s3)"
    by (simp add: kept_scheme_4 [OF e] kept_refl)
  have "edited (mark_ring u s x ring) = (if u then scheme_4 s3 x edit ring else s3)"
    by (simp add: mark_ring_def rw ma mb)
  then show ?thesis using kept_trans [OF kept_trans [OF kept_trans [OF k1 k2] k3] k4] by simp
qed

lemma kept_apply_removals:
  assumes "n \<le> fresh s"
  shows "kept n s (apply_removals (mark_ring u s x ring))"
proof -
  have e: "n \<le> edit_mol (mark_ring u s x ring)" using assms by (simp add: mark_ring_edit_mol)
  show ?thesis
    unfolding apply_removals_def
    by (rule kept_trans [OF kept_mark_ring [OF assms]
          kept_trans [OF kept_RemoveBonds [OF e] kept_RemoveAtoms [OF e]]])
qed

lemma remove_system_edit: "snd (remove_system s x ring) = fresh s"
  by (simp add: remove_system_def RWMol_def new_mol_def split: prod.splits)

lemma kept_remove_system:
  assumes "n \<le> fresh s"
  shows "kept n s (fst (remove_system s x ring))"
proof -
  obtain s1 edit where rw: "RWMol s (mol x) = (s1, edit)" by (cases "RWMol s (mol x)")
  obtain s2 remove where ma:
    "mark_system_atoms s1 x edit (zip (aix ring) (ring_atoms x ring)) {} = (s2, remove)"
    by (cases "mark_system_atoms s1 x edit (zip (aix ring) (ring_atoms x ring)) {}")
  have e: "n \<le> edit" using rw assms by (auto simp: RWMol_def new_mol_def)
  have k1: "kept n s s1" using rw assms by (auto simp: RWMol_def intro: kept_new_mol)
  have k2: "kept n s1 s2" by (metis kept_mark_system_atoms [OF e] ma fst_conv)
  have "fst (remove_system s x ring) = RemoveAtoms s2 edit remove"
    by (simp add: remove_system_def rw ma)
  then show ?thesis using kept_trans [OF kept_trans [OF k1 k2] kept_RemoveAtoms [OF e]] by simp
qed

lemma kept_new_mols:
  "n \<le> fresh s \<Longrightarrow> kept n s (fst (new_mols s ms)) \<and> (\<forall>a\<in>set (snd (new_mols s ms)). n \<le> a)"
proof (induction ms arbitrary: s)
  case Nil
  then show ?case by (simp add: kept_refl)
next
  case (Cons m ms)
  obtain s1 a where nm: "new_mol s m = (s1, a)" by (cases "new_mol s m")
  obtain s2 as where r: "new_mols s1 ms = (s2, as)" by (cases "new_mols s1 ms")
  have k1: "kept n s s1" by (rule kept_new_mol [OF nm Cons.prems])
  have f1: "n \<le> fresh s1" using Cons.prems kept_fresh [OF k1] by simp
  have a: "n \<le> a" using new_mol_addr [OF nm] Cons.prems by simp
  from Cons.IH [OF f1] r have "kept n s1 s2" "\<forall>a\<in>set as. n \<le> a" by simp_all
  then show ?case using k1 a by (auto simp: nm r intro: kept_trans)
qed

lemma kept_Scaffold: "n \<le> a \<Longrightarrow> kept n s (fst (Scaffold eng s a))"
  by (simp add: Scaffold_def Let_def kept_set_mol)

lemma kept_Scaffolds: "\<forall>a\<in>set fs. n \<le> a \<Longrightarrow> kept n s (fst (Scaffolds eng s fs))"
proof (induction fs arbitrary: s)
  case Nil
  then show ?case by (simp add: kept_refl)
next
  case (Cons f fs)
  obtain s1 x where c: "Scaffold eng s f = (s1, x)" by (cases "Scaffold eng s f")
  obtain s2 xs where r: "Scaffolds eng s1 fs = (s2, xs)" by (cases "Scaffolds eng s1 fs")
  have "kept n s s1" using kept_Scaffold [of n f s eng] Cons.prems c by simp
  moreover have "kept n s1 s2" using Cons.IH [of s1] Cons.prems r by simp
  ultimately show ?case by (auto simp: c r intro: kept_trans)
qed

lemma kept_get_scaffold_frags:
  assumes "n \<le> frag" and "n \<le> fresh s"
  shows "kept n s (fst (get_scaffold_frags eng s frag))"
proof -
  obtain m r where sm: "SanitizeMol eng (cells s frag) = (m, r)"
    by (cases "SanitizeMol eng (cells s frag)")
  have k0: "kept n s (set_mol s frag m)" by (rule kept_set_mol [OF assms(1)])
  show ?thesis
  proof (cases r)
    case None
    let ?s0 = "set_mol s frag m"
    obtain s1 fs where nm: "new_mols ?s0 (GetMolFrags eng m) = (s1, fs)"
      by (cases "new_mols ?s0 (GetMolFrags eng m)")
    obtain s2 xs where sc: "Scaffolds eng s1 fs = (s2, xs)" by (cases "Scaffolds eng s1 fs")
    have f0: "n \<le> fresh ?s0" using assms(2) by (simp add: set_mol_def)
    from kept_new_mols [OF f0, of "GetMolFrags eng m"] nm
    have k1: "kept n ?s0 s1" and fs: "\<forall>a\<in>set fs. n \<le> a" by simp_all
    have k2: "kept n s1 s2" using kept_Scaffolds [OF fs, of s1 eng] sc by simp
    have "fst (get_scaffold_frags eng s frag) = s2"
      by (simp add: get_scaffold_frags_def sm None nm sc)
    then show ?thesis using kept_trans [OF kept_trans [OF k0 k1] k2] by simp
  next
    case (Some e)
    then show ?thesis using k0 by (cases e) (simp_all add: get_scaffold_frags_def sm)
  qed
qed

lemma kept_fragment_rings:
  "n \<le> fresh s \<Longrightarrow> kept n s (fst (fragment_rings eng u s x rs parents))"
proof (induction rs arbitrary: s parents)
  case Nil
  then show ?case by (simp add: kept_refl)
next
  case (Cons r rs)
  obtain rix ring where r: "r = (rix, ring)" by (cases r)
  let ?e = "mark_ring u s x ring"
  obtain s1 res where g: "get_scaffold_frags eng (apply_removals ?e) (edit_mol ?e) = (s1, res)"
    by (cases "get_scaffold_frags eng (apply_removals ?e) (edit_mol ?e)")
  have k1: "kept n s (apply_removals ?e)" by (rule kept_apply_removals [OF Cons.prems])
  have f1: "n \<le> fresh (apply_removals ?e)" using Cons.prems kept_fresh [OF k1] by simp
  have e: "n \<le> edit_mol ?e" using Cons.prems by (simp add: mark_ring_edit_mol)
  have k2: "kept n (apply_removals ?e) s1" using kept_get_scaffold_frags [OF e f1, of eng] g by simp
  have k: "kept n s s1" by (rule kept_trans [OF k1 k2])
  have f: "n \<le> fresh s1" using Cons.prems kept_fresh [OF k] by simp
  show ?case
  proof (cases res)
    case (Inl err)
    then show ?thesis using k by (simp add: r g Let_def)
  next
    case (Inr frags)
    show ?thesis using kept_trans [OF k Cons.IH [OF f]] by (simp add: r g Inr Let_def)
  qed
qed

lemma kept_fragment_systems:
  "n \<le> fresh s \<Longrightarrow> kept n s (fst (fragment_systems eng s x rs parents))"
proof (induction rs arbitrary: s parents)
  case Nil
  then show ?case by (simp add: kept_refl)
next
  case (Cons r rs)
  obtain rix ring where r: "r = (rix, ring)" by (cases r)
  obtain s0 edit where m: "remove_system s x ring = (s0, edit)" by (cases "remove_system s x ring")
  obtain s1 res where g: "get_scaffold_frags eng s0 edit = (s1, res)"
    by (cases "get_scaffold_frags eng s0 edit")
  have k1: "kept n s s0" using kept_remove_system [OF Cons.prems, of x ring] m by simp
  have f1: "n \<le> fresh s0" using Cons.prems kept_fresh [OF k1] by simp
  have e: "n \<le> edit" using remove_system_edit [of s x ring] m Cons.prems by simp
  have k2: "kept n s0 s1" using kept_get_scaffold_frags [OF e f1, of eng] g by simp
  have k: "kept n s s1" by (rule kept_trans [OF k1 k2])
  have f: "n \<le> fresh s1" using Cons.prems kept_fresh [OF k] by simp
  show ?case
  proof (cases res)
    case (Inl err)
    then show ?thesis using k by (simp add: r m g)
  next
    case (Inr frags)
    show ?thesis using kept_trans [OF k Cons.IH [OF f]] by (simp add: r m g Inr)
  qed
qed

lemma kept_fragment: "n \<le> fresh s \<Longrightarrow> kept n s (fst (fragment eng f s x))"
  by (cases f)
    (simp_all add: MurckoRingFragmenter_fragment_def MurckoRingSystemFragmenter_fragment_def
      kept_fragment_rings kept_fragment_systems kept_refl)


text \<open>
  C9. A call of either fragmenter leaves the molecule of the scaffold it was given, and
  every other molecule that existed before the call, exactly as it was: the edits go to
  the copies made for the rings or ring systems.
\<close>

theorem fragment_leaves_molecules:
  assumes "mol x < fresh s"
  shows "cells (fst (fragment eng f s x)) (mol x) = cells s (mol x)
       \<and> (\<forall>a<fresh s. cells (fst (fragment eng f s x)) a = cells s a)"
  using kept_fragment [of "fresh s" s eng f x] assms by (simp add: kept_def)

theorem fragment_leaves_molecules_witness:
  "mol bicyclopropyl_scaffold < fresh (store_of bicyclopropyl)
   \<and> cells (fst (fragment demo_engine (MurckoRingFragmenter False) (store_of bicyclopropyl)
                   bicyclopropyl_scaffold)) 0 = bicyclopropyl
   \<and> fresh (fst (fragment demo_engine (MurckoRingFragmenter False) (store_of bicyclopropyl)
                   bicyclopropyl_scaffold)) = 5"
proof -
  have h: "mol bicyclopropyl_scaffold < fresh (store_of bicyclopropyl)" by code_simp
  have m: "mol bicyclopropyl_scaffold = 0" by code_simp
  have c: "cells (store_of bicyclopropyl) 0 = bicyclopropyl" by (simp add: store_of_def)
  have f: "fresh (fst (fragment demo_engine (MurckoRingFragmenter False) (store_of bicyclopropyl)
                   bicyclopropyl_scaffold)) = 5" by code_simp
  show ?thesis
    using fragment_leaves_molecules [OF h, of demo_engine "MurckoRingFragmenter False"] h f
    by (simp add: m c)
qed

section \<open>Properties of the candidate validator\<close>

definition scaffold_at :: "engine \<Rightarrow> addr \<Rightarrow> mol \<Rightarrow> scaffold" where
  "scaffold_at eng a m =
     \<lparr>mol = a, rings = FindRings eng m, ring_systems = FindRingSystems eng (perceived eng m),
      removed_ring_idx = None, smiles = MolToSmiles eng (perceived eng m)\<rparr>"

lemma Scaffold_eq:
  "Scaffold eng s a = (set_mol s a (perceived eng (cells s a)), scaffold_at eng a (cells s a))"
  by (simp add: Scaffold_def scaffold_at_def Let_def perceived_def)

lemma new_mols_rel:
  "new_mols s ms = (s1, as) \<Longrightarrow>
     list_all2 (\<lambda>a m. cells s1 a = m) as ms \<and> distinct as \<and> (\<forall>a\<in>set as. fresh s \<le> a)"
proof (induction ms arbitrary: s s1 as)
  case Nil
  then show ?case by simp
next
  case (Cons m ms)
  obtain s0 a where nm: "new_mol s m = (s0, a)" by (cases "new_mol s m")
  obtain s2 bs where r: "new_mols s0 ms = (s2, bs)" by (cases "new_mols s0 ms")
  have eq: "s1 = s2" "as = a # bs" using Cons.prems by (simp_all add: nm r)
  note a = new_mol_addr [OF nm]
  from Cons.IH [OF r] have ih: "list_all2 (\<lambda>a m. cells s2 a = m) bs ms" "distinct bs"
    "\<forall>b\<in>set bs. fresh s0 \<le> b" by simp_all
  have "kept (fresh s0) s0 s2" using kept_new_mols [of "fresh s0" s0 ms] r by simp
  then have "cells s2 a = m" using a by (auto simp: kept_def)
  moreover have "a \<notin> set bs" using ih(3) a by auto
  moreover have "\<forall>b\<in>set bs. fresh s \<le> b" using ih(3) a by auto
  ultimately show ?case using ih a by (simp add: eq)
qed

lemma Scaffolds_rel:
  "Scaffolds eng s fs = (s2, xs) \<Longrightarrow> distinct fs \<Longrightarrow>
     list_all2 (\<lambda>a x. x = scaffold_at eng a (cells s a) \<and> cells s2 a = perceived eng (cells s a)) fs xs
     \<and> (\<forall>b. b \<notin> set fs \<longrightarrow> cells s2 b = cells s b)"
proof (induction fs arbitrary: s s2 xs)
  case Nil
  then show ?case by simp
next
  case (Cons f fs)
  let ?s1 = "set_mol s f (perceived eng (cells s f))"
  obtain s3 ys where r: "Scaffolds eng ?s1 fs = (s3, ys)" by (cases "Scaffolds eng ?s1 fs")
  have eq: "s2 = s3" "xs = scaffold_at eng f (cells s f) # ys"
    using Cons.prems(1) by (simp_all add: Scaffold_eq r)
  have d: "distinct fs" "f \<notin> set fs" using Cons.prems(2) by simp_all
  from Cons.IH [OF r d(1)]
  have ih: "list_all2 (\<lambda>a x. x = scaffold_at eng a (cells ?s1 a)
                \<and> cells s3 a = perceived eng (cells ?s1 a)) fs ys"
    and fr: "\<forall>b. b \<notin> set fs \<longrightarrow> cells s3 b = cells ?s1 b" by simp_all
  have same: "a \<in> set fs \<Longrightarrow> cells ?s1 a = cells s a" for a
    using d(2) by (auto simp: set_mol_def)
  have "list_all2 (\<lambda>a x. x = scaffold_at eng a (cells s a)
                \<and> cells s3 a = perceived eng (cells s a)) fs ys"
    using ih same by (auto simp: list_all2_conv_all_nth)
  moreover have "cells s3 f = perceived eng (cells s f)"
    using fr d(2) by (simp add: set_mol_def)
  moreover have "\<forall>b. b \<notin> set (f # fs) \<longrightarrow> cells s3 b = cells s b"
    using fr by (simp add: set_mol_def)
  ultimately show ?case by (simp add: eq)
qed

lemma foldl_add_spec:
  "set (foldl add acc xs) \<subseteq> set acc \<union> set xs
   \<and> smiles ` set (foldl add acc xs) = smiles ` set acc \<union> smiles ` set xs
   \<and> (distinct (map smiles acc) \<longrightarrow> distinct (map smiles (foldl add acc xs)))"
proof (induction xs arbitrary: acc)
  case Nil
  show ?case by simp
next
  case (Cons x xs)
  have a: "set (add acc x) \<subseteq> set acc \<union> {x}"
    "distinct (map smiles acc) \<longrightarrow> distinct (map smiles (add acc x))"
    by (auto simp: add_def contains_def scaffold_eq_def)
  have "smiles x \<in> smiles ` set acc" if "contains acc x"
    using that by (metis contains_def scaffold_eq_def imageI)
  then have a3: "smiles ` set (add acc x) = smiles ` set acc \<union> {smiles x}"
    by (auto simp: add_def)
  show ?case using Cons.IH [of "add acc x"] a a3 by auto
qed

text \<open>
  C3. If partial sanitization fails, which the engine reports by \<^verbatim>\<open>ValueError\<close>, the
  validator returns the empty set and raises nothing. If it succeeds, the validator
  returns Scaffolds of which no two are equal, every one of them the Scaffold made of a
  connected component (and wrapping that component, ring perception done), and every
  connected component has its Scaffold, up to Scaffold equality, among them.
\<close>

theorem get_scaffold_frags_validates:
  "(SanitizeMol eng (cells s frag) = (m, Some ValueError) \<longrightarrow>
      snd (get_scaffold_frags eng s frag) = Inr [])
   \<and> (SanitizeMol eng (cells s frag) = (m, None) \<longrightarrow>
      (\<exists>xs. snd (get_scaffold_frags eng s frag) = Inr xs
         \<and> distinct (map smiles xs)
         \<and> smiles ` set xs = (\<lambda>c. MolToSmiles eng (perceived eng c)) ` set (GetMolFrags eng m)
         \<and> (\<forall>x\<in>set xs. \<exists>c\<in>set (GetMolFrags eng m).
               x = scaffold_at eng (mol x) c
             \<and> cells (fst (get_scaffold_frags eng s frag)) (mol x) = perceived eng c)))"
proof (intro conjI impI)
  assume "SanitizeMol eng (cells s frag) = (m, Some ValueError)"
  then show "snd (get_scaffold_frags eng s frag) = Inr []"
    by (simp add: get_scaffold_frags_def)
next
  assume ok: "SanitizeMol eng (cells s frag) = (m, None)"
  let ?s0 = "set_mol s frag m"
  let ?ms = "GetMolFrags eng m"
  obtain s1 fs where nm: "new_mols ?s0 ?ms = (s1, fs)" by (cases "new_mols ?s0 ?ms")
  obtain s2 ys where sc: "Scaffolds eng s1 fs = (s2, ys)" by (cases "Scaffolds eng s1 fs")
  have res: "get_scaffold_frags eng s frag = (s2, Inr (foldl add [] ys))"
    by (simp add: get_scaffold_frags_def ok nm sc)
  from new_mols_rel [OF nm] have a: "list_all2 (\<lambda>a c. cells s1 a = c) fs ?ms" "distinct fs"
    by simp_all
  from Scaffolds_rel [OF sc a(2)]
  have b: "list_all2 (\<lambda>a x. x = scaffold_at eng a (cells s1 a)
              \<and> cells s2 a = perceived eng (cells s1 a)) fs ys" by simp
  have len: "length ys = length ?ms"
    using a(1) b by (simp add: list_all2_lengthD [symmetric])
  have nth: "ys ! i = scaffold_at eng (mol (ys ! i)) (?ms ! i)
           \<and> cells s2 (mol (ys ! i)) = perceived eng (?ms ! i)" if "i < length ?ms" for i
  proof -
    have i: "i < length fs" using that a(1) by (simp add: list_all2_lengthD)
    have "cells s1 (fs ! i) = ?ms ! i" using a(1) i by (simp add: list_all2_conv_all_nth)
    moreover have "ys ! i = scaffold_at eng (fs ! i) (cells s1 (fs ! i))"
      "cells s2 (fs ! i) = perceived eng (cells s1 (fs ! i))"
      using b i by (simp_all add: list_all2_conv_all_nth)
    ultimately show ?thesis by (simp add: scaffold_at_def)
  qed
  have each: "\<exists>c\<in>set ?ms. y = scaffold_at eng (mol y) c \<and> cells s2 (mol y) = perceived eng c"
    if y: "y \<in> set ys" for y
  proof -
    obtain i where i: "i < length ys" "ys ! i = y" using y by (auto simp: in_set_conv_nth)
    then have "?ms ! i \<in> set ?ms" using len by simp
    then show ?thesis using nth [of i] i len by auto
  qed
  have keys: "smiles ` set ys = (\<lambda>c. MolToSmiles eng (perceived eng c)) ` set ?ms"
  proof -
    have "map smiles ys = map (\<lambda>c. MolToSmiles eng (perceived eng c)) ?ms"
    proof (rule nth_equalityI)
      show "length (map smiles ys) = length (map (\<lambda>c. MolToSmiles eng (perceived eng c)) ?ms)"
        using len by simp
    next
      fix i assume "i < length (map smiles ys)"
      then have i: "i < length ?ms" using len by simp
      have "smiles (ys ! i) = MolToSmiles eng (perceived eng (?ms ! i))"
        using nth [OF i] by (metis scaffold.select_convs(5) scaffold_at_def)
      then show "map smiles ys ! i = map (\<lambda>c. MolToSmiles eng (perceived eng c)) ?ms ! i"
        using i len by simp
    qed
    then have "set (map smiles ys) = set (map (\<lambda>c. MolToSmiles eng (perceived eng c)) ?ms)"
      by simp
    then show ?thesis by simp
  qed
  note f = foldl_add_spec [of "[]" ys]
  show "\<exists>xs. snd (get_scaffold_frags eng s frag) = Inr xs
         \<and> distinct (map smiles xs)
         \<and> smiles ` set xs = (\<lambda>c. MolToSmiles eng (perceived eng c)) ` set ?ms
         \<and> (\<forall>x\<in>set xs. \<exists>c\<in>set ?ms.
               x = scaffold_at eng (mol x) c
             \<and> cells (fst (get_scaffold_frags eng s frag)) (mol x) = perceived eng c)"
  proof (intro exI conjI)
    show "snd (get_scaffold_frags eng s frag) = Inr (foldl add [] ys)" by (simp add: res)
    show "distinct (map smiles (foldl add [] ys))" using f by simp
    show "smiles ` set (foldl add [] ys) = (\<lambda>c. MolToSmiles eng (perceived eng c)) ` set ?ms"
      using f keys by simp
    show "\<forall>x\<in>set (foldl add [] ys). \<exists>c\<in>set ?ms. x = scaffold_at eng (mol x) c
        \<and> cells (fst (get_scaffold_frags eng s frag)) (mol x) = perceived eng c"
      using f each by (auto simp: res)
  qed
qed

text \<open>
  An engine that rejects every molecule, and one that splits six atoms into two
  cyclopropanes, which are equal as Scaffolds.
\<close>

definition rejecting_engine :: engine where
  "rejecting_engine = demo_engine\<lparr>SanitizeMol := (\<lambda>m. (m, Some ValueError))\<rparr>"

definition two_cyclopropanes :: mol where
  "two_cyclopropanes =
     \<lparr>atoms = replicate 6 carbon,
      bonds = [single 0 1, single 1 2, single 2 0, single 3 4, single 4 5, single 5 3],
      ring_info = []\<rparr>"

definition splitting_engine :: engine where
  "splitting_engine =
     demo_engine\<lparr>GetMolFrags := (\<lambda>m. if length (atoms m) = 6
                                      then [cyclopropane\<lparr>ring_info := []\<rparr>,
                                            cyclopropane\<lparr>ring_info := []\<rparr>]
                                      else [m])\<rparr>"

theorem get_scaffold_frags_validates_witness:
  "SanitizeMol rejecting_engine (cells (store_of cyclopropane) 0) = (cyclopropane, Some ValueError)
   \<and> snd (get_scaffold_frags rejecting_engine (store_of cyclopropane) 0) = Inr []
   \<and> SanitizeMol splitting_engine (cells (store_of two_cyclopropanes) 0) = (two_cyclopropanes, None)
   \<and> length (GetMolFrags splitting_engine two_cyclopropanes) = 2
   \<and> snd (get_scaffold_frags splitting_engine (store_of two_cyclopropanes) 0)
       = Inr [\<lparr>mol = 1, rings = [three_ring], ring_systems = [three_ring],
               removed_ring_idx = None, smiles = ''C1CC1''\<rparr>]"
proof -
  have r: "SanitizeMol rejecting_engine (cells (store_of cyclopropane) 0)
      = (cyclopropane, Some ValueError)"
    by (simp add: rejecting_engine_def store_of_def)
  have a: "SanitizeMol splitting_engine (cells (store_of two_cyclopropanes) 0)
      = (two_cyclopropanes, None)"
    by (simp add: splitting_engine_def demo_engine_def store_of_def)
  have n: "length (GetMolFrags splitting_engine two_cyclopropanes) = 2" by code_simp
  have v: "snd (get_scaffold_frags splitting_engine (store_of two_cyclopropanes) 0)
       = Inr [\<lparr>mol = 1, rings = [three_ring], ring_systems = [three_ring],
               removed_ring_idx = None, smiles = ''C1CC1''\<rparr>]" by code_simp
  show ?thesis
    using get_scaffold_frags_validates [of rejecting_engine "store_of cyclopropane" 0 cyclopropane]
      get_scaffold_frags_validates [of splitting_engine "store_of two_cyclopropanes" 0
        two_cyclopropanes] r a n v
    by simp
qed


section \<open>Properties of the enumeration\<close>

declare recursive_generation.simps [simp del]

definition grown :: "scaffold list \<Rightarrow> scaffold list \<Rightarrow> bool" where
  "grown parents out =
     ((\<exists>new. out = parents @ new) \<and> (distinct (map smiles parents) \<longrightarrow> distinct (map smiles out)))"

lemma grown_refl: "grown S S"
  by (simp add: grown_def)

lemma grown_trans: "grown A B \<Longrightarrow> grown B C \<Longrightarrow> grown A C"
  by (auto simp: grown_def)

lemma grown_add: "grown S (add S x)"
  by (auto simp: grown_def add_def contains_def scaffold_eq_def)

lemma generation_grown:
  "recursive_generation eng f s parents child = (s', Inr out) \<Longrightarrow> grown parents out"
  "generation_loop eng f s parents found = (s', Inr out) \<Longrightarrow> grown parents out"
proof (induct eng f s parents child and eng f s parents found arbitrary: s' out and s' out
    rule: recursive_generation_generation_loop.induct)
  case (1 eng f s parents child)
  obtain s1 r where fr: "fragment eng f s child = (s1, r)" by (cases "fragment eng f s child")
  show ?case
  proof (cases r)
    case (Inl err)
    then show ?thesis using "1.prems" by (simp add: recursive_generation.simps fr)
  next
    case (Inr found)
    have "generation_loop eng f s1 parents found = (s', Inr out)"
      using "1.prems" by (simp add: recursive_generation.simps fr Inr)
    then show ?thesis using "1.hyps" fr Inr by simp
  qed
next
  case (2 eng f s parents)
  then show ?case by (simp add: grown_refl)
next
  case (3 eng f s parents parent rest)
  show ?case
  proof (cases "contains parents parent")
    case True
    then show ?thesis using "3.hyps"(1) "3.prems" by simp
  next
    case False
    obtain s1 r where rg: "recursive_generation eng f s (add parents parent) parent = (s1, r)"
      by (cases "recursive_generation eng f s (add parents parent) parent")
    show ?thesis
    proof (cases r)
      case (Inl err)
      then show ?thesis using "3.prems" False by (simp add: rg)
    next
      case (Inr parents1)
      have a: "grown (add parents parent) parents1" using "3.hyps"(2) [OF False] rg Inr by simp
      have "generation_loop eng f s1 parents1 rest = (s', Inr out)"
        using "3.prems" False by (simp add: rg Inr)
      then have b: "grown parents1 out" using "3.hyps"(3) [OF False] rg Inr by simp
      show ?thesis by (rule grown_trans [OF grown_trans [OF grown_add a] b])
    qed
  qed
qed

lemma generation_kept:
  fixes n :: addr
  shows "n \<le> fresh s \<Longrightarrow> kept n s (fst (recursive_generation eng f s parents child))"
    and "n \<le> fresh s \<Longrightarrow> kept n s (fst (generation_loop eng f s parents found))"
proof (induct eng f s parents child and eng f s parents found
    rule: recursive_generation_generation_loop.induct)
  case (1 eng f s parents child)
  obtain s1 r where fr: "fragment eng f s child = (s1, r)" by (cases "fragment eng f s child")
  have k: "kept n s s1" using kept_fragment [OF "1.prems", of eng f child] fr by simp
  show ?case
  proof (cases r)
    case (Inl err)
    then show ?thesis using k by (simp add: recursive_generation.simps fr)
  next
    case (Inr found)
    have "n \<le> fresh s1" using "1.prems" kept_fresh [OF k] by simp
    then have "kept n s1 (fst (generation_loop eng f s1 parents found))"
      using "1.hyps" fr Inr by simp
    with k show ?thesis by (simp add: recursive_generation.simps fr Inr kept_trans)
  qed
next
  case (2 eng f s parents)
  then show ?case by (simp add: kept_refl)
next
  case (3 eng f s parents parent rest)
  show ?case
  proof (cases "contains parents parent")
    case True
    then show ?thesis using "3.hyps"(1) "3.prems" by simp
  next
    case False
    obtain s1 r where rg: "recursive_generation eng f s (add parents parent) parent = (s1, r)"
      by (cases "recursive_generation eng f s (add parents parent) parent")
    have k: "kept n s s1" using "3.hyps"(2) [OF False "3.prems"] rg by simp
    show ?thesis
    proof (cases r)
      case (Inl err)
      then show ?thesis using k False by (simp add: rg)
    next
      case (Inr parents1)
      have "n \<le> fresh s1" using "3.prems" kept_fresh [OF k] by simp
      then have "kept n s1 (fst (generation_loop eng f s1 parents1 rest))"
        using "3.hyps"(3) [OF False] rg Inr by simp
      with k show ?thesis using False by (simp add: rg Inr kept_trans)
    qed
  qed
qed

text \<open>
  C8. The enumeration terminates from every scaffold: the recursion is well-founded,
  since every parent a fragmenter returns is one level below the child (one ring less for
  the ring fragmenter, one ring system less for the ring-system fragmenter), and a parent
  already in the discovered set is passed over. When no exception of the engine ends it,
  the enumeration returns the discovered set it started from, extended, and no two of its
  Scaffolds are equal.
\<close>

theorem enumeration_terminates:
  "recursive_generation_generation_loop_dom (Inl (eng, f, s, parents, child))
   \<and> (\<forall>found p. snd (fragment eng f s child) = Inr found \<longrightarrow> p \<in> set found \<longrightarrow>
         level f p < level f child)
   \<and> (\<forall>p rest. contains parents p \<longrightarrow>
         generation_loop eng f s parents (p # rest) = generation_loop eng f s parents rest)
   \<and> (\<forall>out. snd (recursive_generation eng f s parents child) = Inr out \<longrightarrow>
         (\<exists>new. out = parents @ new)
       \<and> (distinct (map smiles parents) \<longrightarrow> distinct (map smiles out)))"
proof (intro conjI allI impI)
  show "recursive_generation_generation_loop_dom (Inl (eng, f, s, parents, child))"
    using generation_total by simp
next
  fix found p
  assume "snd (fragment eng f s child) = Inr found" and p: "p \<in> set found"
  then have "fragment eng f s child = (fst (fragment eng f s child), Inr found)"
    by (simp add: prod_eq_iff)
  from fragment_level [OF this p] show "level f p < level f child" by simp
next
  fix p rest
  assume "contains parents p"
  then show "generation_loop eng f s parents (p # rest) = generation_loop eng f s parents rest"
    by simp
next
  fix out
  assume "snd (recursive_generation eng f s parents child) = Inr out"
  then have "recursive_generation eng f s parents child
      = (fst (recursive_generation eng f s parents child), Inr out)"
    by (simp add: prod_eq_iff)
  from generation_grown(1) [OF this]
  show "\<exists>new. out = parents @ new" "distinct (map smiles parents) \<Longrightarrow> distinct (map smiles out)"
    by (simp_all add: grown_def)
qed

theorem enumeration_terminates_witness:
  "recursive_generation_generation_loop_dom
     (Inl (demo_engine, MurckoRingFragmenter False, store_of bicyclopropyl,
           [bicyclopropyl_scaffold], bicyclopropyl_scaffold))
   \<and> snd (recursive_generation demo_engine (MurckoRingFragmenter False) (store_of bicyclopropyl)
            [bicyclopropyl_scaffold] bicyclopropyl_scaffold)
       = Inr [bicyclopropyl_scaffold,
              \<lparr>mol = 2, rings = [three_ring], ring_systems = [three_ring],
               removed_ring_idx = Some 0, smiles = ''C1CC1''\<rparr>]
   \<and> distinct (map smiles [bicyclopropyl_scaffold,
              \<lparr>mol = 2, rings = [three_ring], ring_systems = [three_ring],
               removed_ring_idx = Some 0, smiles = ''C1CC1''\<rparr>])
   \<and> level (MurckoRingFragmenter False) bicyclopropyl_scaffold = 2"
proof -
  have v: "snd (recursive_generation demo_engine (MurckoRingFragmenter False)
            (store_of bicyclopropyl) [bicyclopropyl_scaffold] bicyclopropyl_scaffold)
       = Inr [bicyclopropyl_scaffold,
              \<lparr>mol = 2, rings = [three_ring], ring_systems = [three_ring],
               removed_ring_idx = Some 0, smiles = ''C1CC1''\<rparr>]" by code_simp
  have l: "level (MurckoRingFragmenter False) bicyclopropyl_scaffold = 2" by code_simp
  show ?thesis
    using enumeration_terminates [of demo_engine "MurckoRingFragmenter False"
        "store_of bicyclopropyl" "[bicyclopropyl_scaffold]" bicyclopropyl_scaffold] v l
    by simp
qed


text \<open>
  C10. The list \<^verbatim>\<open>get_all_murcko_fragments\<close> returns contains the molecule of the seed:
  the Murcko scaffold of the input with its stereochemistry removed, as the Scaffold made
  of it holds it.
\<close>

theorem get_all_murcko_fragments_has_seed:
  assumes "snd (get_all_murcko_fragments eng s m break_fused_rings) = Inr out"
  shows "fresh s \<in> set out
       \<and> cells (fst (get_all_murcko_fragments eng s m break_fused_rings)) (fresh s)
           = perceived eng (RemoveStereochemistry eng (GetScaffoldForMol eng (cells s m)))"
proof -
  let ?f = "if break_fused_rings then MurckoRingFragmenter False else MurckoRingSystemFragmenter"
  let ?seed = "RemoveStereochemistry eng (GetScaffoldForMol eng (cells s m))"
  let ?s1 = "fst (new_mol s (GetScaffoldForMol eng (cells s m)))"
  let ?s2 = "set_mol (set_mol ?s1 (fresh s) ?seed) (fresh s) (perceived eng ?seed)"
  let ?x = "scaffold_at eng (fresh s) ?seed"
  obtain s3 r where rg: "recursive_generation eng ?f ?s2 [?x] ?x = (s3, r)"
    by (cases "recursive_generation eng ?f ?s2 [?x] ?x")
  have unfold: "get_all_murcko_fragments eng s m break_fused_rings =
      (case r of Inl err \<Rightarrow> (s3, Inl err) | Inr parents \<Rightarrow> (s3, Inr (map mol parents)))"
    using rg by (simp add: get_all_murcko_fragments_def Let_def new_mol_def Scaffold_eq set_mol_def
        split: sum.splits)
  obtain parents where r: "r = Inr parents" and out: "out = map mol parents"
    using assms unfold by (cases r) simp_all
  from generation_grown(1) [OF rg [unfolded r]]
  obtain new where "parents = [?x] @ new" by (auto simp: grown_def)
  then have a: "fresh s \<in> set out" by (simp add: out scaffold_at_def)
  have "kept (Suc (fresh s)) ?s2 s3"
    using generation_kept(1) [of "Suc (fresh s)" ?s2 eng ?f "[?x]" ?x] rg
    by (simp add: set_mol_def new_mol_def)
  then have "cells s3 (fresh s) = cells ?s2 (fresh s)" by (simp add: kept_def)
  then have b: "cells s3 (fresh s) = perceived eng ?seed" by (simp add: set_mol_def)
  show ?thesis using a b by (simp add: unfold r)
qed

theorem get_all_murcko_fragments_has_seed_witness:
  "snd (get_all_murcko_fragments demo_engine (store_of bicyclopropyl) 0 True) = Inr [1, 3]
   \<and> fresh (store_of bicyclopropyl) = 1
   \<and> cells (fst (get_all_murcko_fragments demo_engine (store_of bicyclopropyl) 0 True)) 1
       = bicyclopropyl"
proof -
  have v: "snd (get_all_murcko_fragments demo_engine (store_of bicyclopropyl) 0 True) = Inr [1, 3]"
    by code_simp
  have f: "fresh (store_of bicyclopropyl) = 1" by (simp add: store_of_def)
  have p: "perceived demo_engine (RemoveStereochemistry demo_engine
      (GetScaffoldForMol demo_engine (cells (store_of bicyclopropyl) 0))) = bicyclopropyl"
    by code_simp
  show ?thesis using get_all_murcko_fragments_has_seed [OF v] v f p by simp
qed

section \<open>Scheme 4: the shared bond of a small heteroatom ring\<close>

subsection \<open>What the marking loops keep\<close>

lemma collect_relation:
  fixes R :: "collector \<Rightarrow> collector \<Rightarrow> bool"
  assumes refl: "\<And>c. R c c"
    and trans: "\<And>c1 c2 c3. R c1 c2 \<Longrightarrow> R c2 c3 \<Longrightarrow> R c1 c3"
    and terminal: "\<And>c a other i. R c (terminal_side_chain c a other i)"
    and continue: "\<And>c a i. R c (continue_deletion c a i)"
    and branching: "\<And>c a other bond. R c (branching_point c a other bond)"
  shows "R c (collect c a)" and "R c (collect_bonds c a bs)"
proof (induct c a and c a bs rule: collect_collect_bonds.induct)
  case (1 c origin_atom)
  then show ?case by (simp add: collect.simps)
next
  case (2 c origin_atom)
  show ?case by (simp add: refl)
next
  case (3 c a bond rest)
  let ?other = "GetOtherAtom (heap c) bond a"
  let ?c1 = "continue_deletion c a (GetIdx bond)"
  have descend: "R c (collect_bonds (collect ?c1 ?other) a rest)"
    if "R ?c1 (collect ?c1 ?other)"
      and "R (collect ?c1 ?other) (collect_bonds (collect ?c1 ?other) a rest)"
    using trans [OF trans [OF continue that(1)] that(2)] .
  show ?case
  proof (cases "GetIdx bond \<in> visited c \<or> BondIsInRing (heap c) bond")
    case True
    then show ?thesis using "3.hyps"(1) by (simp add: collect_bonds.simps(2))
  next
    case nv: False
    show ?thesis
    proof (cases "GetDegree (heap c) ?other = 1")
      case True
      show ?thesis using nv True trans [OF terminal "3.hyps"(2) [OF nv True]]
        by (simp add: collect_bonds.simps(2))
    next
      case n1: False
      show ?thesis
      proof (cases "GetDegree (heap c) ?other = 2")
        case True
        show ?thesis using nv n1 True descend [OF "3.hyps"(3,4) [OF nv n1 True]]
          by (simp add: collect_bonds.simps(2))
      next
        case n2: False
        show ?thesis
        proof (cases "2 < GetDegree (heap c) ?other")
          case gt: True
          show ?thesis
          proof (cases "non_terminal_branches (heap c) ?other < 3")
            case True
            show ?thesis using nv n1 n2 gt True descend [OF "3.hyps"(5,6) [OF nv n1 n2 gt True]]
              by (simp add: collect_bonds.simps(2))
          next
            case False
            show ?thesis using nv n1 n2 gt False trans [OF branching "3.hyps"(7) [OF nv n1 n2 gt False]]
              by (simp add: collect_bonds.simps(2))
          qed
        next
          case False
          then show ?thesis using nv n1 n2 "3.hyps"(8) [OF nv n1 n2 False]
            by (simp add: collect_bonds.simps(2))
        qed
      qed
    qed
  qed
qed

lemma collect_finite: "finite (remove_atoms c) \<Longrightarrow> finite (remove_atoms (collect c a))"
proof -
  have "finite (remove_atoms c) \<longrightarrow> finite (remove_atoms (collect c a))"
    by (rule collect_relation(1) [where R = "\<lambda>c c'. finite (remove_atoms c) \<longrightarrow> finite (remove_atoms c')"])
      (auto simp: terminal_side_chain_def continue_deletion_def branching_point_def Let_def)
  then show "finite (remove_atoms c) \<Longrightarrow> finite (remove_atoms (collect c a))" by simp
qed

lemma GetBonds_cong:
  "bonds (cells s k) = bonds (cells s' k') \<Longrightarrow>
     map snd (GetBonds s (k, i)) = map snd (GetBonds s' (k', i))"
  by (simp add: GetBonds_def Let_def comp_def)

lemma GetDegree_cong:
  "bonds (cells s k) = bonds (cells s' k') \<Longrightarrow> GetDegree s (k, i) = GetDegree s' (k', i)"
  by (simp add: GetDegree_def GetBonds_def Let_def)

lemma ring_consistent_cong:
  assumes "bonds (cells s k) = bonds (cells s' k')"
    and "ring_info (cells s k) = ring_info (cells s' k')"
  shows "ring_consistent s k = ring_consistent s' k'"
proof -
  have a: "AtomIsInRing s (k, i) = AtomIsInRing s' (k', i)" for i
    using assms by (simp add: AtomIsInRing_def NumAtomRings_def)
  have b: "length (filter (BondIsInRing s) (GetBonds s (k, i)))
         = length (filter (BondIsInRing s') (GetBonds s' (k', i)))" for i
    using assms
    by (simp add: GetBonds_def Let_def filter_map comp_def BondIsInRing_def NumBondRings_def)
  have c: "bond_at s (k, j) = bond_at s' (k', j)" for j
    using assms by (simp add: bond_at_def)
  show ?thesis by (simp add: ring_consistent_def a b c assms)
qed

text \<open>
  The statement about scheme 4 is for molecules as the engine gives them: the bonds of a
  ring end at atoms of that ring, and no two bonds join the same two atoms. An atom at
  index \<open>i\<close> that stays is at index \<open>new_index remove i\<close> once the atoms of
  \<open>remove\<close> are gone.
\<close>

definition rings_closed :: "mol \<Rightarrow> bool" where
  "rings_closed m =
     (\<forall>r\<in>set (ring_info m). \<forall>j\<in>set (bix r).
        j < length (bonds m)
      \<and> begin_atom (bonds m ! j) \<in> set (aix r) \<and> end_atom (bonds m ! j) \<in> set (aix r))"

definition simple_graph :: "mol \<Rightarrow> bool" where
  "simple_graph m =
     (\<forall>i\<in>{0..<length (bonds m)}. \<forall>j\<in>{0..<length (bonds m)}.
        joins (bonds m ! i) (begin_atom (bonds m ! j)) (end_atom (bonds m ! j)) \<longrightarrow> i = j)"

definition new_index :: "nat set \<Rightarrow> nat \<Rightarrow> nat" where
  "new_index remove i = i - card {r \<in> remove. r < i}"

lemma NumAtomRings_cong: "ring_info m = ring_info m' \<Longrightarrow> NumAtomRings m i = NumAtomRings m' i"
  by (simp add: NumAtomRings_def)

lemma mark_ring_atoms_marks:
  assumes k: "k < edit" and mk: "mol x = k"
    and cons: "ring_consistent s k"
    and zs: "\<forall>z\<in>set zs. snd z = (k, fst z)"
    and b: "bonds (cells s edit) = bonds m" and r: "ring_info (cells s edit) = ring_info m"
    and o: "cells s k = m"
    and res: "mark_ring_atoms s x edit zs R = (s', R')"
  shows "bonds (cells s' edit) = bonds m \<and> ring_info (cells s' edit) = ring_info m
       \<and> cells s' k = m \<and> (finite R \<longrightarrow> finite R')
       \<and> (\<forall>i\<in>R'. i \<in> R \<or> NumAtomRings m i = 0
                   \<or> (i \<in> fst ` set zs \<and> NumAtomRings m i = 1))"
  using cons zs b r o res
proof (induction zs arbitrary: s R)
  case Nil
  then show ?case by simp
next
  case (Cons z zs)
  obtain index where z: "z = (index, (k, index))" using Cons.prems(2) by (cases z) auto
  note cons = Cons.prems(1) and b = Cons.prems(3) and r = Cons.prems(4) and o = Cons.prems(5)
  have zs: "\<forall>z\<in>set zs. snd z = (k, fst z)" using Cons.prems(2) by simp
  have e: "edit \<le> fst (GetAtomWithIdx edit index)" by (simp add: GetAtomWithIdx_def)
  have step: ?case
    if st: "same_structure s s1" and kp: "kept edit s s1"
      and go: "mark_ring_atoms s1 x edit zs R1 = (s', R')"
      and fin: "finite R \<longrightarrow> finite R1"
      and new: "\<forall>i\<in>R1. i \<in> R \<or> NumAtomRings m i = 0 \<or> (i = index \<and> NumAtomRings m i = 1)"
    for s1 R1
  proof -
    have b1: "bonds (cells s1 edit) = bonds m" "ring_info (cells s1 edit) = ring_info m"
      using st b r by (simp_all add: same_structure_def)
    have o1: "cells s1 k = m" using kp k o by (simp add: kept_def)
    have c1: "ring_consistent s1 k"
      using cons ring_consistent_cong [of s1 k s k] o o1 by simp
    from Cons.IH [OF c1 zs b1 o1 go]
    have ih: "bonds (cells s' edit) = bonds m" "ring_info (cells s' edit) = ring_info m"
      "cells s' k = m" "finite R1 \<longrightarrow> finite R'"
      "\<forall>i\<in>R'. i \<in> R1 \<or> NumAtomRings m i = 0 \<or> (i \<in> fst ` set zs \<and> NumAtomRings m i = 1)"
      by simp_all
    have "\<forall>i\<in>R'. i \<in> R \<or> NumAtomRings m i = 0
            \<or> (i \<in> fst ` set (z # zs) \<and> NumAtomRings m i = 1)"
    proof
      fix i assume iR: "i \<in> R'"
      have d: "i \<in> R1 \<or> NumAtomRings m i = 0 \<or> (i \<in> fst ` set zs \<and> NumAtomRings m i = 1)"
        by (rule bspec [OF ih(5) iR])
      have n: "i \<in> R \<or> NumAtomRings m i = 0 \<or> (i = index \<and> NumAtomRings m i = 1)"
        if "i \<in> R1"
        by (rule bspec [OF new that])
      have f: "fst ` set (z # zs) = insert index (fst ` set zs)" by (simp add: z)
      show "i \<in> R \<or> NumAtomRings m i = 0 \<or> (i \<in> fst ` set (z # zs) \<and> NumAtomRings m i = 1)"
        unfolding f using d n by blast
    qed
    then show ?thesis using ih(1-4) fin by simp
  qed
  show ?case
  proof (cases "NumAtomRings (cells s (mol x)) index = 1")
    case one: True
    then have one': "NumAtomRings m index = 1" using mk o by simp
    show ?thesis
    proof (cases "2 < GetDegree s (k, index)")
      case True
      let ?ini = "\<lparr>heap = s, visited = {}, remove_atoms = R, ring_attachments = {}\<rparr>"
      let ?fin = "collect ?ini (GetAtomWithIdx edit index)"
      have cl: "collect_linker_atoms s (GetAtomWithIdx edit index) R True
          = (heap ?fin, remove_atoms ?fin,
             if AtomIsInRing (heap ?fin) (GetAtomWithIdx edit index)
             then insert (GetIdx (GetAtomWithIdx edit index)) (ring_attachments ?fin)
             else ring_attachments ?fin)"
        by (simp add: collect_linker_atoms_def Let_def)
      have ce: "ring_consistent s edit"
        using cons ring_consistent_cong [of s edit s k] b r o by simp
      have de: "GetDegree s (edit, index) \<noteq> 1"
        using True GetDegree_cong [of s edit s k index] b o by simp
      have safe: "safe_step s (edit, index) ?ini ?fin"
        unfolding GetAtomWithIdx_def
        by (rule collect_safe(1)) (use ce de in \<open>simp_all add: same_structure_refl\<close>)
      have st: "same_structure s (heap ?fin)" using safe by (simp add: safe_step_def)
      have kp: "kept edit s (heap ?fin)"
        using kept_collect_linker_atoms [OF e, of s R True] by (simp add: cl)
      have fin: "finite R \<longrightarrow> finite (remove_atoms ?fin)"
        using collect_finite [of ?ini] by simp
      have new: "\<forall>i\<in>remove_atoms ?fin. i \<in> R \<or> NumAtomRings m i = 0
                    \<or> (i = index \<and> NumAtomRings m i = 1)"
      proof
        fix i assume "i \<in> remove_atoms ?fin"
        then have "i \<in> R \<or> i = index \<or> \<not> AtomIsInRing s (edit, i)"
          using safe by (auto simp: safe_step_def)
        moreover have "NumAtomRings m i = 0" if "\<not> AtomIsInRing s (edit, i)"
          using that r by (simp add: AtomIsInRing_def NumAtomRings_def)
        ultimately show "i \<in> R \<or> NumAtomRings m i = 0 \<or> (i = index \<and> NumAtomRings m i = 1)"
          using one' by auto
      qed
      have go: "mark_ring_atoms (heap ?fin) x edit zs (remove_atoms ?fin) = (s', R')"
        using Cons.prems(6) one True by (simp add: z cl)
      show ?thesis by (rule step [OF st kp go fin new])
    next
      case False
      have go: "mark_ring_atoms s x edit zs (insert index R) = (s', R')"
        using Cons.prems(6) one False by (simp add: z)
      show ?thesis
        by (rule step [OF same_structure_refl kept_refl go]) (use one' in auto)
    qed
  next
    case False
    have go: "mark_ring_atoms (correct_atom_props s (GetAtomWithIdx edit index)) x edit zs R = (s', R')"
      using Cons.prems(6) False by (simp add: z)
    show ?thesis
      by (rule step [OF same_structure_correct_atom_props kept_correct_atom_props [OF e] go]) auto
  qed
qed

lemma mark_ring_bonds_marks:
  assumes k: "k < edit"
    and b: "bonds (cells s edit) = bonds m" and r: "ring_info (cells s edit) = ring_info m"
    and o: "cells s k = m"
    and res: "mark_ring_bonds s edit R bs acc = (s', B)"
  shows "bonds (cells s' edit) = bonds m \<and> ring_info (cells s' edit) = ring_info m
       \<and> cells s' k = m
       \<and> (\<forall>xy\<in>set B. xy \<in> set acc \<or>
            (\<exists>j\<in>set bs. xy = (begin_atom (bonds m ! j), end_atom (bonds m ! j))))"
  using b r o res
proof (induction bs arbitrary: s acc)
  case Nil
  then show ?case by simp
next
  case (Cons j bs)
  note b = Cons.prems(1) and r = Cons.prems(2) and o = Cons.prems(3)
  let ?bx = "begin_atom (bonds m ! j)" and ?by = "end_atom (bonds m ! j)"
  have ends: "GetBeginAtomIdx s (GetBondWithIdx edit j) = ?bx"
    "GetEndAtomIdx s (GetBondWithIdx edit j) = ?by"
    using b by (simp_all add: GetBeginAtomIdx_def GetEndAtomIdx_def GetBondWithIdx_def bond_at_def)
  show ?case
  proof (cases "?bx \<notin> R \<and> ?by \<notin> R")
    case True
    let ?s1 = "correct_atom_props (correct_atom_props s (GetAtomWithIdx edit ?bx))
                 (GetAtomWithIdx edit ?by)"
    have e: "edit \<le> fst (GetAtomWithIdx edit i)" for i by (simp add: GetAtomWithIdx_def)
    have st: "same_structure s ?s1"
      by (rule same_structure_trans [OF same_structure_correct_atom_props
            same_structure_correct_atom_props])
    have kp: "kept edit s ?s1"
      by (rule kept_trans [OF kept_correct_atom_props [OF e] kept_correct_atom_props [OF e]])
    have b1: "bonds (cells ?s1 edit) = bonds m" "ring_info (cells ?s1 edit) = ring_info m"
      using st b r by (simp_all add: same_structure_def)
    have o1: "cells ?s1 k = m" using kp k o by (simp add: kept_def)
    have go: "mark_ring_bonds ?s1 edit R bs (List.insert (?bx, ?by) acc) = (s', B)"
      using Cons.prems(4) True by (simp add: ends Let_def)
    from Cons.IH [OF b1 o1 go] show ?thesis by auto
  next
    case False
    then have go: "mark_ring_bonds s edit R bs acc = (s', B)"
      using Cons.prems(4) by (auto simp: ends Let_def)
    from Cons.IH [OF b r o go] show ?thesis by auto
  qed
qed

subsection \<open>A bond that is not marked survives the removals\<close>

lemma remove_first_keeps: "x \<in> set xs \<Longrightarrow> \<not> P x \<Longrightarrow> x \<in> set (remove_first P xs)"
  by (induction xs) auto

lemma RemoveBond_keeps:
  assumes "bond \<in> set (bonds (cells s edit))" and "\<not> joins bond (fst xy) (snd xy)"
  shows "bond \<in> set (bonds (cells (RemoveBond s edit xy) edit))"
  using assms by (auto simp: RemoveBond_def Let_def set_mol_def intro: remove_first_keeps)

lemma RemoveBonds_keeps:
  assumes "bond \<in> set (bonds (cells s edit))"
    and "\<forall>xy\<in>set pairs. \<not> joins bond (fst xy) (snd xy)"
  shows "bond \<in> set (bonds (cells (RemoveBonds s edit pairs) edit))"
  using assms unfolding RemoveBonds_def
proof (induction pairs arbitrary: s)
  case Nil
  then show ?case by simp
next
  case (Cons xy pairs)
  have "bond \<in> set (bonds (cells (RemoveBond s edit xy) edit))"
    by (rule RemoveBond_keeps) (use Cons.prems in auto)
  then show ?case using Cons.IH [of "RemoveBond s edit xy"] Cons.prems(2) by simp
qed

lemma RemoveAtom_keeps:
  assumes "bond \<in> set (bonds (cells s edit))" and "begin_atom bond \<noteq> i" and "end_atom bond \<noteq> i"
  shows "bond\<lparr>begin_atom := renumber i (begin_atom bond), end_atom := renumber i (end_atom bond)\<rparr>
           \<in> set (bonds (cells (RemoveAtom s edit i) edit))"
  using assms by (auto simp: RemoveAtom_def Let_def set_mol_def)

lemma new_index_step:
  assumes "d \<notin> S" and "finite S" and "\<forall>r\<in>S. r < d" and "p \<noteq> d"
  shows "new_index S (renumber d p) = new_index (insert d S) p"
proof (cases "d < p")
  case True
  have a: "{r \<in> S. r < p - 1} = {r \<in> S. r < p}" using assms(3) True by auto
  have b: "{r \<in> insert d S. r < p} = insert d {r \<in> S. r < p}" using True by auto
  have c: "card (insert d {r \<in> S. r < p}) = Suc (card {r \<in> S. r < p})"
    using assms(1,2) by simp
  have "new_index S (renumber d p) = p - 1 - card {r \<in> S. r < p - 1}"
    using True by (simp add: new_index_def renumber_def)
  also have "\<dots> = p - Suc (card {r \<in> S. r < p})" unfolding a by simp
  also have "\<dots> = new_index (insert d S) p" unfolding new_index_def b c ..
  finally show ?thesis .
next
  case False
  then have "{r \<in> insert d S. r < p} = {r \<in> S. r < p}" using assms(4) by auto
  then show ?thesis using False by (simp add: new_index_def renumber_def)
qed

lemma renumber_avoids:
  assumes "\<forall>r\<in>S. r < d" and "p \<noteq> d" and "p \<notin> S"
  shows "renumber d p \<notin> S"
  using assms by (auto simp: renumber_def)

lemma RemoveAtoms_list_keeps:
  assumes "sorted (rev ds)" and "distinct ds"
    and "bond \<in> set (bonds (cells s edit))"
    and "begin_atom bond \<notin> set ds" and "end_atom bond \<notin> set ds"
  shows "\<exists>b\<in>set (bonds (cells (foldl (\<lambda>s1 a_ix. RemoveAtom s1 edit a_ix) s ds) edit)).
           bond_type b = bond_type bond
         \<and> begin_atom b = new_index (set ds) (begin_atom bond)
         \<and> end_atom b = new_index (set ds) (end_atom bond)"
  using assms
proof (induction ds arbitrary: s bond)
  case Nil
  then show ?case by (auto simp: new_index_def)
next
  case (Cons d ds)
  let ?bond1 = "bond\<lparr>begin_atom := renumber d (begin_atom bond),
                      end_atom := renumber d (end_atom bond)\<rparr>"
  have "\<forall>r\<in>set ds. r \<le> d" "d \<notin> set ds"
    using Cons.prems(1,2) by (auto simp: sorted_append)
  then have below: "\<forall>r\<in>set ds. r < d"
    by (metis le_neq_implies_less)
  have srt: "sorted (rev ds)" "distinct ds" using Cons.prems(1,2) by (simp_all add: sorted_append)
  have ne: "begin_atom bond \<noteq> d" "end_atom bond \<noteq> d" using Cons.prems(4,5) by auto
  have in1: "?bond1 \<in> set (bonds (cells (RemoveAtom s edit d) edit))"
    by (rule RemoveAtom_keeps [OF Cons.prems(3) ne])
  have av: "begin_atom ?bond1 \<notin> set ds" "end_atom ?bond1 \<notin> set ds"
    using renumber_avoids [OF below] ne Cons.prems(4,5) by simp_all
  from Cons.IH [OF srt in1 av]
  obtain b where b: "b \<in> set (bonds (cells (foldl (\<lambda>s1 a_ix. RemoveAtom s1 edit a_ix)
        (RemoveAtom s edit d) ds) edit))" "bond_type b = bond_type ?bond1"
      "begin_atom b = new_index (set ds) (begin_atom ?bond1)"
      "end_atom b = new_index (set ds) (end_atom ?bond1)" by blast
  have d: "d \<notin> set ds" using Cons.prems(2) by simp
  have "begin_atom b = new_index (set (d # ds)) (begin_atom bond)"
    "end_atom b = new_index (set (d # ds)) (end_atom bond)"
    using b(3,4) new_index_step [OF d _ below] ne by simp_all
  then show ?case using b(1,2) by auto
qed

lemma RemoveAtoms_keeps:
  assumes "finite remove" and "bond \<in> set (bonds (cells s edit))"
    and "begin_atom bond \<notin> remove" and "end_atom bond \<notin> remove"
  shows "\<exists>b\<in>set (bonds (cells (RemoveAtoms s edit remove) edit)).
           bond_type b = bond_type bond
         \<and> begin_atom b = new_index remove (begin_atom bond)
         \<and> end_atom b = new_index remove (end_atom bond)"
proof -
  let ?ds = "rev (sorted_list_of_set remove)"
  have "set ?ds = remove" using assms(1) by simp
  moreover have "sorted (rev ?ds)" "distinct ?ds" by simp_all
  ultimately show ?thesis
    using RemoveAtoms_list_keeps [of ?ds "bond" s edit] assms(2-4)
    by (simp add: RemoveAtoms_def)
qed

subsection \<open>The shared bond becomes a double bond and stays\<close>

lemma shared_bond_ends_in_two_rings:
  assumes closed: "rings_closed m" and two: "1 < NumBondRings m b"
  shows "b < length (bonds m)"
    and "1 < NumAtomRings m (begin_atom (bonds m ! b))"
    and "1 < NumAtomRings m (end_atom (bonds m ! b))"
proof -
  have "filter (\<lambda>r. b \<in> set (bix r)) (ring_info m) \<noteq> []"
    using two by (auto simp: NumBondRings_def)
  then obtain r where "r \<in> set (ring_info m)" "b \<in> set (bix r)"
    by (auto simp: filter_empty_conv)
  then show "b < length (bonds m)" using closed by (auto simp: rings_closed_def)
  have "NumBondRings m b \<le> NumAtomRings m (begin_atom (bonds m ! b))"
    unfolding NumBondRings_def NumAtomRings_def
    by (rule length_filter_mono) (use closed in \<open>auto simp: rings_closed_def\<close>)
  then show "1 < NumAtomRings m (begin_atom (bonds m ! b))" using two by simp
  have "NumBondRings m b \<le> NumAtomRings m (end_atom (bonds m ! b))"
    unfolding NumBondRings_def NumAtomRings_def
    by (rule length_filter_mono) (use closed in \<open>auto simp: rings_closed_def\<close>)
  then show "1 < NumAtomRings m (end_atom (bonds m ! b))" using two by simp
qed

lemma ring_bond_in_range:
  assumes "rings_closed m" and "NumBondRings m j = 1"
  shows "j < length (bonds m)"
proof -
  have "filter (\<lambda>r. j \<in> set (bix r)) (ring_info m) \<noteq> []"
    using assms(2) by (auto simp: NumBondRings_def)
  then obtain r where "r \<in> set (ring_info m)" "j \<in> set (bix r)"
    by (auto simp: filter_empty_conv)
  then show ?thesis using assms(1) by (auto simp: rings_closed_def)
qed

subsection \<open>The parents of one ring\<close>

text \<open>
  The list the ring fragmenter returns is made pass by pass: the parents of the ring at
  index \<open>i\<close> are the validated fragments of the candidate of that pass with one ring
  less than the scaffold, and they are the only members of the list that carry the index
  \<open>i\<close>. The pass starts in a store that has the molecules of the store of the call
  unchanged.
\<close>

lemma tag_parents_idx: "p \<in> set (tag_parents N r frags) \<Longrightarrow> removed_ring_idx p = Some r"
  by (auto simp: tag_parents_def)

lemma set_tag_parents:
  "set (tag_parents N r frags)
     = (\<lambda>p. p\<lparr>removed_ring_idx := Some r\<rparr>) ` {p \<in> set frags. int (length (rings p)) = int N - 1}"
  by (auto simp: tag_parents_def)

lemma fragment_rings_tags:
  assumes "fragment_rings eng u s x (enumerate n rs) acc = (s', Inr parents)"
  shows "\<exists>new. parents = acc @ new \<and> (\<forall>p\<in>set new. \<exists>j\<ge>n. removed_ring_idx p = Some j)"
  using assms
proof (induction rs arbitrary: n s acc)
  case Nil
  then show ?case by simp
next
  case (Cons ring rs)
  let ?e = "mark_ring u s x ring"
  obtain s1 res where g: "get_scaffold_frags eng (apply_removals ?e) (edit_mol ?e) = (s1, res)"
    by (cases "get_scaffold_frags eng (apply_removals ?e) (edit_mol ?e)")
  show ?case
  proof (cases res)
    case (Inl err)
    then show ?thesis using Cons.prems by (simp add: g Let_def)
  next
    case (Inr frags)
    let ?t = "tag_parents (length (rings x)) n frags"
    have "fragment_rings eng u s1 x (enumerate (Suc n) rs) (acc @ ?t) = (s', Inr parents)"
      using Cons.prems by (simp add: g Inr Let_def)
    from Cons.IH [OF this] obtain new where new: "parents = (acc @ ?t) @ new"
      "\<forall>p\<in>set new. \<exists>j\<ge>Suc n. removed_ring_idx p = Some j" by blast
    have "\<forall>p\<in>set (?t @ new). \<exists>j\<ge>n. removed_ring_idx p = Some j"
      using new(2) tag_parents_idx [of _ "length (rings x)" n frags]
      by (metis Suc_leD Un_iff le_refl set_append)
    then show ?thesis using new(1) by (metis append_assoc)
  qed
qed

lemma kept_mono: "n \<le> n' \<Longrightarrow> kept n' a b \<Longrightarrow> kept n a b"
  by (simp add: kept_def)

lemma fragment_rings_pass:
  assumes "fragment_rings eng u s x (enumerate n rs) acc = (s', Inr parents)"
    and "i < length rs" and "n0 \<le> fresh s"
  shows "\<exists>s0 s1 frags. kept n0 s s0
       \<and> get_scaffold_frags eng (apply_removals (mark_ring u s0 x (rs ! i)))
           (edit_mol (mark_ring u s0 x (rs ! i))) = (s1, Inr frags)
       \<and> (\<forall>p. p \<in> set parents \<and> removed_ring_idx p = Some (n + i)
              \<longleftrightarrow> p \<in> set acc \<and> removed_ring_idx p = Some (n + i)
                \<or> p \<in> set (tag_parents (length (rings x)) (n + i) frags))"
  using assms
proof (induction rs arbitrary: n s acc i)
  case Nil
  then show ?case by simp
next
  case (Cons ring rs)
  let ?e = "mark_ring u s x ring"
  obtain s1 res where g: "get_scaffold_frags eng (apply_removals ?e) (edit_mol ?e) = (s1, res)"
    by (cases "get_scaffold_frags eng (apply_removals ?e) (edit_mol ?e)")
  obtain frags where res: "res = Inr frags"
    using Cons.prems(1) by (cases res) (simp_all add: g Let_def)
  let ?t = "tag_parents (length (rings x)) n frags"
  have rest: "fragment_rings eng u s1 x (enumerate (Suc n) rs) (acc @ ?t) = (s', Inr parents)"
    using Cons.prems(1) by (simp add: g res Let_def)
  show ?case
  proof (cases i)
    case 0
    from fragment_rings_tags [OF rest] obtain new where new: "parents = (acc @ ?t) @ new"
      "\<forall>p\<in>set new. \<exists>j\<ge>Suc n. removed_ring_idx p = Some j" by blast
    have "\<forall>p. p \<in> set parents \<and> removed_ring_idx p = Some n
            \<longleftrightarrow> p \<in> set acc \<and> removed_ring_idx p = Some n \<or> p \<in> set ?t"
      using new tag_parents_idx [of _ "length (rings x)" n frags] by fastforce
    then show ?thesis using g res 0 kept_refl [of n0 s] by auto
  next
    case (Suc j)
    have k1: "kept n0 s (apply_removals ?e)" by (rule kept_apply_removals [OF Cons.prems(3)])
    have f1: "n0 \<le> fresh (apply_removals ?e)" using Cons.prems(3) kept_fresh [OF k1] by simp
    have e: "n0 \<le> edit_mol ?e" using Cons.prems(3) by (simp add: mark_ring_edit_mol)
    have k2: "kept n0 (apply_removals ?e) s1"
      using kept_get_scaffold_frags [OF e f1, of eng] g by simp
    have k: "kept n0 s s1" by (rule kept_trans [OF k1 k2])
    have f: "n0 \<le> fresh s1" using Cons.prems(3) kept_fresh [OF k] by simp
    have j: "j < length rs" using Cons.prems(2) Suc by simp
    from Cons.IH [OF rest j f] obtain s0 s2 frags2 where ih: "kept n0 s1 s0"
      "get_scaffold_frags eng (apply_removals (mark_ring u s0 x (rs ! j)))
           (edit_mol (mark_ring u s0 x (rs ! j))) = (s2, Inr frags2)"
      "\<forall>p. p \<in> set parents \<and> removed_ring_idx p = Some (Suc n + j)
              \<longleftrightarrow> p \<in> set (acc @ ?t) \<and> removed_ring_idx p = Some (Suc n + j)
                \<or> p \<in> set (tag_parents (length (rings x)) (Suc n + j) frags2)"
      by blast
    have "\<forall>p. p \<in> set parents \<and> removed_ring_idx p = Some (n + i)
              \<longleftrightarrow> p \<in> set acc \<and> removed_ring_idx p = Some (n + i)
                \<or> p \<in> set (tag_parents (length (rings x)) (n + i) frags2)"
      using ih(3) tag_parents_idx [of _ "length (rings x)" n frags] Suc by fastforce
    then show ?thesis using kept_trans [OF k ih(1)] ih(2) Suc by auto
  qed
qed

subsection \<open>The pass for a small heteroatom ring\<close>

lemma scheme_4_mark_ring:
  assumes alloc: "mol x < fresh s"
    and cons: "ring_consistent s (mol x)"
    and closed: "rings_closed (cells s (mol x))"
    and simple: "simple_graph (cells s (mol x))"
    and three: "length (aix ring) = 3"
    and hetero: "length (filter (\<lambda>a. a \<noteq> 1 \<and> a \<noteq> 6)
                   (map (GetAtomicNum s) (ring_atoms x ring))) = 1"
    and shared: "shared_bonds (cells s (mol x)) ring = [b]"
    and member: "ring \<in> set (ring_info (cells s (mol x)))"
  shows "GetBondType (edited (mark_ring True s x ring))
           (GetBondWithIdx (edit_mol (mark_ring True s x ring)) b) = DOUBLE"
    and "\<forall>xy\<in>set (edit_remove_bonds (mark_ring True s x ring)).
            \<not> joins (bonds (cells s (mol x)) ! b) (fst xy) (snd xy)"
    and "\<forall>i\<in>edit_remove_atoms (mark_ring True s x ring).
           \<forall>r\<in>set (ring_info (cells s (mol x))). i \<in> set (aix r) \<longrightarrow> r = ring"
    and "begin_atom (bonds (cells s (mol x)) ! b) \<notin> edit_remove_atoms (mark_ring True s x ring)"
    and "end_atom (bonds (cells s (mol x)) ! b) \<notin> edit_remove_atoms (mark_ring True s x ring)"
    and "\<exists>bond\<in>set (bonds (cells (apply_removals (mark_ring True s x ring))
                                   (edit_mol (mark_ring True s x ring)))).
            bond_type bond = DOUBLE
          \<and> begin_atom bond = new_index (edit_remove_atoms (mark_ring True s x ring))
                                (begin_atom (bonds (cells s (mol x)) ! b))
          \<and> end_atom bond = new_index (edit_remove_atoms (mark_ring True s x ring))
                              (end_atom (bonds (cells s (mol x)) ! b))"
proof -
  let ?k = "mol x"
  let ?m = "cells s ?k"
  let ?fusion = "bonds ?m ! b"
  let ?edit = "fresh s"
  let ?s1 = "s\<lparr>cells := (cells s)(?edit := ?m), fresh := Suc (fresh s)\<rparr>"
  let ?zs = "zip (aix ring) (ring_atoms x ring)"
  have rw: "RWMol s ?k = (?s1, ?edit)" by (simp add: RWMol_def new_mol_def)
  obtain s2 R where ma: "mark_ring_atoms ?s1 x ?edit ?zs {} = (s2, R)"
    by (cases "mark_ring_atoms ?s1 x ?edit ?zs {}")
  have c1: "cells ?s1 ?edit = ?m" "cells ?s1 ?k = ?m" using alloc by simp_all
  have cons1: "ring_consistent ?s1 ?k"
    using cons ring_consistent_cong [of ?s1 ?k s ?k] c1 by simp
  have zs: "\<forall>z\<in>set ?zs. snd z = (?k, fst z)"
    by (auto simp: ring_atoms_def GetAtomWithIdx_def zip_map2 zip_same_conv_map)
  from mark_ring_atoms_marks [OF alloc refl cons1 zs _ _ c1(2) ma]
  have a: "bonds (cells s2 ?edit) = bonds ?m" "ring_info (cells s2 ?edit) = ring_info ?m"
    "cells s2 ?k = ?m" "finite R"
    "\<forall>i\<in>R. NumAtomRings ?m i = 0 \<or> (i \<in> fst ` set ?zs \<and> NumAtomRings ?m i = 1)"
    using c1 by simp_all
  obtain s3 B where mb: "mark_ring_bonds s2 ?edit R (unshared_bonds ?m ring) [] = (s3, B)"
    by (cases "mark_ring_bonds s2 ?edit R (unshared_bonds ?m ring) []")
  from mark_ring_bonds_marks [OF alloc a(1,2,3) mb]
  have bb: "bonds (cells s3 ?edit) = bonds ?m" "cells s3 ?k = ?m"
    "\<forall>xy\<in>set B. \<exists>j\<in>set (unshared_bonds ?m ring).
        xy = (begin_atom (bonds ?m ! j), end_atom (bonds ?m ! j))"
    by simp_all
  have nums: "map (GetAtomicNum s3) (ring_atoms x ring) = map (GetAtomicNum s) (ring_atoms x ring)"
    using bb(2) by (simp add: ring_atoms_def GetAtomicNum_def atom_at_def GetAtomWithIdx_def)
  have s4: "scheme_4 s3 x ?edit ring = SetBondType s3 (GetBondWithIdx ?edit b) DOUBLE"
    using three hetero shared by (simp add: scheme_4_def nums bb(2) Let_def)
  have e: "mark_ring True s x ring =
      \<lparr>edited = SetBondType s3 (GetBondWithIdx ?edit b) DOUBLE, edit_mol = ?edit,
       edit_remove_atoms = R, edit_remove_bonds = B\<rparr>"
    by (simp add: mark_ring_def rw ma a(3) mb s4)
  have two: "1 < NumBondRings ?m b"
  proof -
    have "b \<in> set (shared_bonds ?m ring)" using shared by simp
    then show ?thesis by (simp add: shared_bonds_def)
  qed
  note sb = shared_bond_ends_in_two_rings [OF closed two]
  let ?dbl = "?fusion\<lparr>bond_type := DOUBLE\<rparr>"
  have upd: "bonds (cells (SetBondType s3 (GetBondWithIdx ?edit b) DOUBLE) ?edit)
      = (bonds ?m)[b := ?dbl]"
    by (simp add: SetBondType_def update_bond_def GetBondWithIdx_def bond_at_def bb(1))
  have i: "GetBondType (SetBondType s3 (GetBondWithIdx ?edit b) DOUBLE) (GetBondWithIdx ?edit b)
      = DOUBLE"
    using sb(1) upd by (simp add: GetBondType_def bond_at_def GetBondWithIdx_def)
  have ii: "begin_atom ?fusion \<notin> R" "end_atom ?fusion \<notin> R"
    using a(5) sb(2,3) by fastforce+
  have iii: "\<not> joins ?fusion (fst xy) (snd xy)" if xy: "xy \<in> set B" for xy
  proof
    assume j: "joins ?fusion (fst xy) (snd xy)"
    obtain j where jm: "j \<in> set (unshared_bonds ?m ring)"
      and jx: "xy = (begin_atom (bonds ?m ! j), end_atom (bonds ?m ! j))"
      using bb(3) xy by blast
    have one: "NumBondRings ?m j = 1" using jm by (simp add: unshared_bonds_def)
    have "j < length (bonds ?m)" by (rule ring_bond_in_range [OF closed one])
    then have "b = j" using simple sb(1) j jx by (auto simp: simple_graph_def)
    then show False using one two by simp
  qed
  have own: "r = ring" if iR: "i \<in> R" and r: "r \<in> set (ring_info ?m)" and ir: "i \<in> set (aix r)"
    for i r
  proof -
    have "NumAtomRings ?m i \<noteq> 0"
      using r ir by (auto simp: NumAtomRings_def filter_empty_conv)
    then have in_ring: "i \<in> fst ` set ?zs" and one: "NumAtomRings ?m i = 1"
      using a(5) iR by auto
    have "i \<in> set (aix ring)" using in_ring by (auto dest: set_zip_leftD)
    then show ?thesis
      using unique_ring [of "\<lambda>r. i \<in> set (aix r)" "ring_info ?m" r ring] one r ir member
      by (simp add: NumAtomRings_def)
  qed
  have in0: "?dbl \<in> set (bonds (cells (SetBondType s3 (GetBondWithIdx ?edit b) DOUBLE) ?edit))"
    unfolding upd using sb(1) by (simp add: set_update_memI)
  have "?dbl \<in> set (bonds (cells (RemoveBonds (SetBondType s3 (GetBondWithIdx ?edit b) DOUBLE)
                                     ?edit B) ?edit))"
    by (rule RemoveBonds_keeps [OF in0]) (use iii in \<open>simp add: joins_def\<close>)
  from RemoveAtoms_keeps [OF a(4) this] ii
  have iv: "\<exists>bond\<in>set (bonds (cells (RemoveAtoms (RemoveBonds
        (SetBondType s3 (GetBondWithIdx ?edit b) DOUBLE) ?edit B) ?edit R) ?edit)).
      bond_type bond = DOUBLE \<and> begin_atom bond = new_index R (begin_atom ?fusion)
      \<and> end_atom bond = new_index R (end_atom ?fusion)"
    by simp
  show "GetBondType (edited (mark_ring True s x ring))
           (GetBondWithIdx (edit_mol (mark_ring True s x ring)) b) = DOUBLE"
    using i by (simp add: e)
  show "\<forall>xy\<in>set (edit_remove_bonds (mark_ring True s x ring)).
            \<not> joins (bonds (cells s (mol x)) ! b) (fst xy) (snd xy)"
    using iii by (simp add: e)
  show "\<forall>i\<in>edit_remove_atoms (mark_ring True s x ring).
           \<forall>r\<in>set (ring_info (cells s (mol x))). i \<in> set (aix r) \<longrightarrow> r = ring"
    using own by (simp add: e)
  show "begin_atom (bonds (cells s (mol x)) ! b) \<notin> edit_remove_atoms (mark_ring True s x ring)"
    using ii by (simp add: e)
  show "end_atom (bonds (cells s (mol x)) ! b) \<notin> edit_remove_atoms (mark_ring True s x ring)"
    using ii by (simp add: e)
  show "\<exists>bond\<in>set (bonds (cells (apply_removals (mark_ring True s x ring))
                                   (edit_mol (mark_ring True s x ring)))).
            bond_type bond = DOUBLE
          \<and> begin_atom bond = new_index (edit_remove_atoms (mark_ring True s x ring))
                                (begin_atom (bonds (cells s (mol x)) ! b))
          \<and> end_atom bond = new_index (edit_remove_atoms (mark_ring True s x ring))
                              (end_atom (bonds (cells s (mol x)) ! b))"
    using iv by (simp add: e apply_removals_def)
qed

text \<open>
  C6 (as amended). With scheme 4 enabled, take a scaffold whose ring set is the ring
  information of its molecule, and a ring of it with exactly three atoms, exactly one of
  them neither hydrogen nor carbon, and exactly one bond \<open>b\<close> shared with another ring;
  let the ring fragmenter return a list of parents. Then, in the pass for that ring (it
  starts in a store \<open>s0\<close> that holds the scaffold's molecule unchanged), the ring
  fragmenter sets \<open>b\<close> to a double bond in its copy and does not put it among the bonds
  to remove; it marks no atom of any other ring for removal, so neither end of \<open>b\<close> and
  no atom of the fused partner; the candidate it hands to validation has a double bond
  between the two ends of the former fusion bond (at the indices they have after the
  removals); and the parents in the returned list that carry the index of the ring are
  exactly the fragments validation gives for that candidate that have one ring less than
  the scaffold, tagged with that index. So the ring gives a parent whenever validation
  accepts the candidate and one of its connected components has exactly one ring less
  than the scaffold, and gives none otherwise.
\<close>

theorem scheme_4_converts_shared_bond:
  assumes alloc: "mol x < fresh s"
    and rings: "rings x = ring_info (cells s (mol x))"
    and cons: "ring_consistent s (mol x)"
    and closed: "rings_closed (cells s (mol x))"
    and simple: "simple_graph (cells s (mol x))"
    and rix: "rix < length (rings x)"
    and ring: "rings x ! rix = ring"
    and three: "length (aix ring) = 3"
    and hetero: "length (filter (\<lambda>a. a \<noteq> 1 \<and> a \<noteq> 6)
                   (map (GetAtomicNum s) (ring_atoms x ring))) = 1"
    and shared: "shared_bonds (cells s (mol x)) ring = [b]"
    and result: "snd (MurckoRingFragmenter_fragment eng True s x) = Inr parents"
  shows "\<exists>s0 e s1 frags.
           cells s0 (mol x) = cells s (mol x)
         \<and> e = mark_ring True s0 x ring
         \<and> GetBondType (edited e) (GetBondWithIdx (edit_mol e) b) = DOUBLE
         \<and> (\<forall>xy\<in>set (edit_remove_bonds e).
              \<not> joins (bonds (cells s (mol x)) ! b) (fst xy) (snd xy))
         \<and> (\<forall>i\<in>edit_remove_atoms e. \<forall>r\<in>set (rings x). i \<in> set (aix r) \<longrightarrow> r = ring)
         \<and> begin_atom (bonds (cells s (mol x)) ! b) \<notin> edit_remove_atoms e
         \<and> end_atom (bonds (cells s (mol x)) ! b) \<notin> edit_remove_atoms e
         \<and> (\<exists>bond\<in>set (bonds (cells (apply_removals e) (edit_mol e))).
              bond_type bond = DOUBLE
            \<and> begin_atom bond
                = new_index (edit_remove_atoms e) (begin_atom (bonds (cells s (mol x)) ! b))
            \<and> end_atom bond
                = new_index (edit_remove_atoms e) (end_atom (bonds (cells s (mol x)) ! b)))
         \<and> get_scaffold_frags eng (apply_removals e) (edit_mol e) = (s1, Inr frags)
         \<and> {p \<in> set parents. removed_ring_idx p = Some rix}
             = (\<lambda>p. p\<lparr>removed_ring_idx := Some rix\<rparr>)
                 ` {p \<in> set frags. int (length (rings p)) = int (length (rings x)) - 1}"
proof -
  obtain s' where "MurckoRingFragmenter_fragment eng True s x = (s', Inr parents)"
    using result by (cases "MurckoRingFragmenter_fragment eng True s x") simp
  then have fr: "fragment_rings eng True s x (enumerate 0 (rings x)) [] = (s', Inr parents)"
    by (simp add: MurckoRingFragmenter_fragment_def)
  from fragment_rings_pass [OF fr rix order_refl]
  obtain s0 s1 frags where kp: "kept (fresh s) s s0"
    and g: "get_scaffold_frags eng (apply_removals (mark_ring True s0 x ring))
              (edit_mol (mark_ring True s0 x ring)) = (s1, Inr frags)"
    and par: "\<forall>p. p \<in> set parents \<and> removed_ring_idx p = Some rix
                 \<longleftrightarrow> p \<in> set (tag_parents (length (rings x)) rix frags)"
    unfolding ring by auto
  have c0: "cells s0 (mol x) = cells s (mol x)" using kp alloc by (simp add: kept_def)
  have alloc0: "mol x < fresh s0" using kp alloc by (simp add: kept_def)
  have cons0: "ring_consistent s0 (mol x)"
    using cons ring_consistent_cong [of s0 "mol x" s "mol x"] c0 by simp
  have closed0: "rings_closed (cells s0 (mol x))" using closed c0 by simp
  have simple0: "simple_graph (cells s0 (mol x))" using simple c0 by simp
  have nums: "map (GetAtomicNum s0) (ring_atoms x ring) = map (GetAtomicNum s) (ring_atoms x ring)"
    using c0 by (simp add: ring_atoms_def GetAtomicNum_def atom_at_def GetAtomWithIdx_def)
  have hetero0: "length (filter (\<lambda>a. a \<noteq> 1 \<and> a \<noteq> 6)
                   (map (GetAtomicNum s0) (ring_atoms x ring))) = 1"
    using hetero unfolding nums .
  have shared0: "shared_bonds (cells s0 (mol x)) ring = [b]" using shared c0 by simp
  have member0: "ring \<in> set (ring_info (cells s0 (mol x)))"
    using rings rix ring c0 nth_mem [of rix "rings x"] by simp
  note core = scheme_4_mark_ring [OF alloc0 cons0 closed0 simple0 three hetero0 shared0 member0]
  let ?e = "mark_ring True s0 x ring"
  have p1: "GetBondType (edited ?e) (GetBondWithIdx (edit_mol ?e) b) = DOUBLE" by (rule core(1))
  have p2: "\<forall>xy\<in>set (edit_remove_bonds ?e).
              \<not> joins (bonds (cells s (mol x)) ! b) (fst xy) (snd xy)"
    using core(2) unfolding c0 .
  have p3: "\<forall>i\<in>edit_remove_atoms ?e. \<forall>r\<in>set (rings x). i \<in> set (aix r) \<longrightarrow> r = ring"
    using core(3) unfolding c0 rings .
  have p4: "begin_atom (bonds (cells s (mol x)) ! b) \<notin> edit_remove_atoms ?e"
    using core(4) unfolding c0 .
  have p5: "end_atom (bonds (cells s (mol x)) ! b) \<notin> edit_remove_atoms ?e"
    using core(5) unfolding c0 .
  have p6: "\<exists>bond\<in>set (bonds (cells (apply_removals ?e) (edit_mol ?e))).
              bond_type bond = DOUBLE
            \<and> begin_atom bond
                = new_index (edit_remove_atoms ?e) (begin_atom (bonds (cells s (mol x)) ! b))
            \<and> end_atom bond
                = new_index (edit_remove_atoms ?e) (end_atom (bonds (cells s (mol x)) ! b))"
    using core(6) unfolding c0 .
  have p7: "{p \<in> set parents. removed_ring_idx p = Some rix}
             = (\<lambda>p. p\<lparr>removed_ring_idx := Some rix\<rparr>)
                 ` {p \<in> set frags. int (length (rings p)) = int (length (rings x)) - 1}"
    unfolding set_tag_parents [symmetric] using par by blast
  show ?thesis
    by (intro exI conjI) (rule c0, rule refl, rule p1, rule p2, rule p3, rule p4, rule p5,
      rule p6, rule g, rule p7)
qed

text \<open>
  An epoxide fused to a three-membered ring, 2-oxabicyclo[1.1.0]butane: the oxygen is
  atom 0 and bond 1 is the fusion bond. Removing the epoxide ring leaves cyclopropene,
  which is the parent of ring 0; removing the other ring leaves oxirane. The engine used
  here accepts every molecule, takes a molecule that has atoms as one connected component,
  and gives the rings and canonical forms of the graphs that occur.
\<close>

definition oxygen :: atom where
  "oxygen = \<lparr>atomic_num = 8, is_aromatic = False, num_explicit_hs = 0, no_implicit = False,
     chiral_tag = CHI_UNSPECIFIED\<rparr>"

definition oxabicyclobutane :: mol where
  "oxabicyclobutane =
     \<lparr>atoms = oxygen # replicate 3 carbon,
      bonds = [single 0 1, single 1 2, single 2 0, single 1 3, single 3 2],
      ring_info = [three_ring, \<lparr>aix = [1, 2, 3], bix = [1, 3, 4]\<rparr>]\<rparr>"

definition oxabicyclobutane_scaffold :: scaffold where
  "oxabicyclobutane_scaffold =
     \<lparr>mol = 0, rings = ring_info oxabicyclobutane,
      ring_systems = [\<lparr>aix = [0, 1, 2, 3], bix = [0, 1, 2, 3, 4]\<rparr>],
      removed_ring_idx = None, smiles = ''C1C2OC12''\<rparr>"

definition ends :: "mol \<Rightarrow> (nat \<times> nat) list" where
  "ends m = map (\<lambda>b. (begin_atom b, end_atom b)) (bonds m)"

definition oxirane_engine :: engine where
  "oxirane_engine =
     \<lparr>SanitizeMol = (\<lambda>m. (m, None)),
      GetMolFrags = (\<lambda>m. if atoms m = [] then [] else [m]),
      FindRings = (\<lambda>m.
         if ends m = [(0, 1), (0, 2), (2, 1)] \<or> ends m = [(0, 1), (1, 2), (2, 0)]
           then [three_ring]
         else if ends m = ends oxabicyclobutane then ring_info oxabicyclobutane
         else []),
      FindRingSystems = (\<lambda>m. if length (ring_info m) = 0 then [] else
                               [\<lparr>aix = [0..<length (atoms m)], bix = [0..<length (bonds m)]\<rparr>]),
      MolToSmiles = (\<lambda>m.
         if ends m = [(0, 1), (0, 2), (2, 1)] then ''C1=CC1''
         else if ends m = [(0, 1), (1, 2), (2, 0)] then ''C1CO1''
         else if ends m = ends oxabicyclobutane then ''C1C2OC12''
         else []),
      GetScaffoldForMol = (\<lambda>m. m),
      RemoveStereochemistry = (\<lambda>m. m)\<rparr>"

definition cyclopropene_parent :: scaffold where
  "cyclopropene_parent =
     \<lparr>mol = 2, rings = [three_ring], ring_systems = [\<lparr>aix = [0, 1, 2], bix = [0, 1, 2]\<rparr>],
      removed_ring_idx = Some 0, smiles = ''C1=CC1''\<rparr>"

definition oxirane_parent :: scaffold where
  "oxirane_parent =
     \<lparr>mol = 4, rings = [three_ring], ring_systems = [\<lparr>aix = [0, 1, 2], bix = [0, 1, 2]\<rparr>],
      removed_ring_idx = Some 1, smiles = ''C1CO1''\<rparr>"

theorem scheme_4_converts_shared_bond_witness:
  "mol oxabicyclobutane_scaffold < fresh (store_of oxabicyclobutane)
   \<and> rings oxabicyclobutane_scaffold
       = ring_info (cells (store_of oxabicyclobutane) (mol oxabicyclobutane_scaffold))
   \<and> ring_consistent (store_of oxabicyclobutane) (mol oxabicyclobutane_scaffold)
   \<and> rings_closed (cells (store_of oxabicyclobutane) (mol oxabicyclobutane_scaffold))
   \<and> simple_graph (cells (store_of oxabicyclobutane) (mol oxabicyclobutane_scaffold))
   \<and> 0 < length (rings oxabicyclobutane_scaffold)
   \<and> rings oxabicyclobutane_scaffold ! 0 = three_ring
   \<and> length (aix three_ring) = 3
   \<and> map (GetAtomicNum (store_of oxabicyclobutane)) (ring_atoms oxabicyclobutane_scaffold three_ring)
       = [8, 6, 6]
   \<and> shared_bonds (cells (store_of oxabicyclobutane) (mol oxabicyclobutane_scaffold)) three_ring
       = [1]
   \<and> bonds (cells (store_of oxabicyclobutane) (mol oxabicyclobutane_scaffold)) ! 1 = single 1 2
   \<and> snd (MurckoRingFragmenter_fragment oxirane_engine True (store_of oxabicyclobutane)
             oxabicyclobutane_scaffold)
       = Inr [cyclopropene_parent, oxirane_parent]
   \<and> removed_ring_idx cyclopropene_parent = Some 0
   \<and> int (length (rings cyclopropene_parent)) = int (length (rings oxabicyclobutane_scaffold)) - 1
   \<and> bonds (cells (fst (MurckoRingFragmenter_fragment oxirane_engine True
                           (store_of oxabicyclobutane) oxabicyclobutane_scaffold))
               (mol cyclopropene_parent))
       = [\<lparr>begin_atom = 0, end_atom = 1, bond_type = DOUBLE\<rparr>, single 0 2, single 2 1]
   \<and> edit_remove_atoms (mark_ring True (store_of oxabicyclobutane) oxabicyclobutane_scaffold three_ring) = {0}
   \<and> edit_remove_bonds (mark_ring True (store_of oxabicyclobutane) oxabicyclobutane_scaffold three_ring) = []
   \<and> new_index {0} 1 = 0 \<and> new_index {0} 2 = 1
   \<and> bonds (cells (apply_removals (mark_ring True (store_of oxabicyclobutane) oxabicyclobutane_scaffold three_ring)) (edit_mol (mark_ring True (store_of oxabicyclobutane) oxabicyclobutane_scaffold three_ring)))
       = [\<lparr>begin_atom = 0, end_atom = 1, bond_type = DOUBLE\<rparr>, single 0 2, single 2 1]
   \<and> (\<exists>s0 e s1 frags.
           cells s0 (mol oxabicyclobutane_scaffold)
             = cells (store_of oxabicyclobutane) (mol oxabicyclobutane_scaffold)
         \<and> e = mark_ring True s0 oxabicyclobutane_scaffold three_ring
         \<and> GetBondType (edited e) (GetBondWithIdx (edit_mol e) 1) = DOUBLE
         \<and> (\<forall>xy\<in>set (edit_remove_bonds e). \<not> joins (bonds (cells (store_of oxabicyclobutane) (mol oxabicyclobutane_scaffold)) ! 1) (fst xy) (snd xy))
         \<and> (\<forall>i\<in>edit_remove_atoms e. \<forall>r\<in>set (rings oxabicyclobutane_scaffold).
               i \<in> set (aix r) \<longrightarrow> r = three_ring)
         \<and> begin_atom (bonds (cells (store_of oxabicyclobutane) (mol oxabicyclobutane_scaffold)) ! 1) \<notin> edit_remove_atoms e
         \<and> end_atom (bonds (cells (store_of oxabicyclobutane) (mol oxabicyclobutane_scaffold)) ! 1) \<notin> edit_remove_atoms e
         \<and> (\<exists>bond\<in>set (bonds (cells (apply_removals e) (edit_mol e))).
              bond_type bond = DOUBLE
            \<and> begin_atom bond = new_index (edit_remove_atoms e) (begin_atom (bonds (cells (store_of oxabicyclobutane) (mol oxabicyclobutane_scaffold)) ! 1))
            \<and> end_atom bond = new_index (edit_remove_atoms e) (end_atom (bonds (cells (store_of oxabicyclobutane) (mol oxabicyclobutane_scaffold)) ! 1)))
         \<and> get_scaffold_frags oxirane_engine (apply_removals e) (edit_mol e) = (s1, Inr frags)
         \<and> {p \<in> set [cyclopropene_parent, oxirane_parent]. removed_ring_idx p = Some 0}
             = (\<lambda>p. p\<lparr>removed_ring_idx := Some 0\<rparr>)
                 ` {p \<in> set frags.
                      int (length (rings p)) = int (length (rings oxabicyclobutane_scaffold)) - 1})"
proof -
  let ?s = "store_of oxabicyclobutane"
  let ?x = "oxabicyclobutane_scaffold"
  have h1: "mol ?x < fresh ?s" by code_simp
  have h2: "rings ?x = ring_info (cells ?s (mol ?x))" by code_simp
  have h3: "ring_consistent ?s (mol ?x)" by code_simp
  have h4: "rings_closed (cells ?s (mol ?x))" by code_simp
  have h5: "simple_graph (cells ?s (mol ?x))" by code_simp
  have h6: "0 < length (rings ?x)" by code_simp
  have h7: "rings ?x ! 0 = three_ring" by code_simp
  have h8: "length (aix three_ring) = 3" by code_simp
  have n: "map (GetAtomicNum ?s) (ring_atoms ?x three_ring) = [8, 6, 6]" by code_simp
  have h9: "length (filter (\<lambda>a. a \<noteq> 1 \<and> a \<noteq> 6) (map (GetAtomicNum ?s) (ring_atoms ?x three_ring))) = 1"
    unfolding n by simp
  have h10: "shared_bonds (cells ?s (mol ?x)) three_ring = [1]" by code_simp
  have h11: "snd (MurckoRingFragmenter_fragment oxirane_engine True ?s ?x)
      = Inr [cyclopropene_parent, oxirane_parent]" by code_simp
  have f1: "bonds (cells ?s (mol ?x)) ! 1 = single 1 2" by code_simp
  have f2: "removed_ring_idx cyclopropene_parent = Some 0" by code_simp
  have f3: "int (length (rings cyclopropene_parent)) = int (length (rings ?x)) - 1" by code_simp
  have f4: "bonds (cells (fst (MurckoRingFragmenter_fragment oxirane_engine True ?s ?x))
               (mol cyclopropene_parent))
       = [\<lparr>begin_atom = 0, end_atom = 1, bond_type = DOUBLE\<rparr>, single 0 2, single 2 1]"
    by code_simp
  have f5: "edit_remove_atoms (mark_ring True (store_of oxabicyclobutane) oxabicyclobutane_scaffold three_ring) = {0}" by code_simp
  have f6: "edit_remove_bonds (mark_ring True (store_of oxabicyclobutane) oxabicyclobutane_scaffold three_ring) = []" by code_simp
  have f7: "new_index {0} 1 = 0" by code_simp
  have f8: "new_index {0} 2 = 1" by code_simp
  have f9: "bonds (cells (apply_removals (mark_ring True (store_of oxabicyclobutane) oxabicyclobutane_scaffold three_ring)) (edit_mol (mark_ring True (store_of oxabicyclobutane) oxabicyclobutane_scaffold three_ring)))
       = [\<lparr>begin_atom = 0, end_atom = 1, bond_type = DOUBLE\<rparr>, single 0 2, single 2 1]"
    by code_simp
  note concl = scheme_4_converts_shared_bond [OF h1 h2 h3 h4 h5 h6 h7 h8 h9 h10 h11]
  show ?thesis
    by (intro conjI) (fact h1 h2 h3 h4 h5 h6 h7 h8 n h10 h11 f1 f2 f3 f4 f5 f6 f7 f8 f9 concl)+
qed


text \<open>
  The claim as the specification states it has a parent come of every such ring. In the
  next molecule the aziridine ring (atoms 0, 1, 2, nitrogen at 0) shares bond 0 with a
  four-membered ring, and its carbon atom 2 is the spiro atom of a cyclopropane. All three
  atoms of the aziridine ring lie on two rings, so none is removed; its two unshared bonds
  are cut; and the candidate falls into a four-membered ring with the new double bond and
  a cyclopropane, each with one ring where two are asked for. The engine used here accepts
  every molecule and gives the components, rings and canonical forms of the graphs that
  occur. No parent carries the index of the aziridine ring.
\<close>

definition nitrogen :: atom where
  "nitrogen = \<lparr>atomic_num = 7, is_aromatic = False, num_explicit_hs = 0, no_implicit = False,
     chiral_tag = CHI_UNSPECIFIED\<rparr>"

definition spiro_aziridine :: mol where
  "spiro_aziridine =
     \<lparr>atoms = nitrogen # replicate 6 carbon,
      bonds = [single 0 1, single 1 2, single 2 0,
               single 1 3, single 3 4, single 4 0,
               single 2 5, single 5 6, single 6 2],
      ring_info = [\<lparr>aix = [0, 1, 2], bix = [0, 1, 2]\<rparr>,
                   \<lparr>aix = [0, 1, 3, 4], bix = [0, 3, 4, 5]\<rparr>,
                   \<lparr>aix = [2, 5, 6], bix = [6, 7, 8]\<rparr>]\<rparr>"

definition azetine :: mol where
  "azetine =
     \<lparr>atoms = nitrogen # replicate 3 carbon,
      bonds = [\<lparr>begin_atom = 0, end_atom = 1, bond_type = DOUBLE\<rparr>,
               single 1 2, single 2 3, single 3 0],
      ring_info = []\<rparr>"

definition spiro_engine :: engine where
  "spiro_engine =
     \<lparr>SanitizeMol = (\<lambda>m. (m, None)),
      GetMolFrags = (\<lambda>m. if ends m = [(0, 1), (1, 3), (3, 4), (4, 0), (2, 5), (5, 6), (6, 2)]
                          then [azetine, cyclopropane\<lparr>ring_info := []\<rparr>]
                          else if atoms m = [] then [] else [m]),
      FindRings = (\<lambda>m.
         if ends m = [(0, 1), (1, 2), (2, 0)] then [three_ring]
         else if ends m = [(0, 1), (1, 2), (2, 3), (3, 0)]
           then [\<lparr>aix = [0, 1, 2, 3], bix = [0, 1, 2, 3]\<rparr>]
         else if ends m = [(0, 1), (1, 2), (2, 0), (2, 3), (3, 4), (4, 2)]
           then [three_ring, \<lparr>aix = [2, 3, 4], bix = [3, 4, 5]\<rparr>]
         else if ends m = [(0, 1), (1, 2), (2, 0), (1, 3), (3, 4), (4, 0)]
           then [three_ring, \<lparr>aix = [0, 1, 3, 4], bix = [0, 3, 4, 5]\<rparr>]
         else if ends m = ends spiro_aziridine then ring_info spiro_aziridine
         else []),
      FindRingSystems = (\<lambda>m. if length (ring_info m) = 0 then [] else
                               [\<lparr>aix = [0..<length (atoms m)], bix = [0..<length (bonds m)]\<rparr>]),
      MolToSmiles = (\<lambda>m.
         if ends m = [(0, 1), (1, 2), (2, 0)] then ''C1CC1''
         else if ends m = [(0, 1), (1, 2), (2, 3), (3, 0)] then ''C1=NCC1''
         else if ends m = [(0, 1), (1, 2), (2, 0), (2, 3), (3, 4), (4, 2)] then ''C1CC12CN2''
         else if ends m = [(0, 1), (1, 2), (2, 0), (1, 3), (3, 4), (4, 0)] then ''C1CN2CC12''
         else if ends m = ends spiro_aziridine then ''C1CC12C3CCN23''
         else []),
      GetScaffoldForMol = (\<lambda>m. m),
      RemoveStereochemistry = (\<lambda>m. m)\<rparr>"

definition spiro_scaffold :: scaffold where
  "spiro_scaffold = snd (Scaffold spiro_engine (store_of spiro_aziridine) 0)"


theorem scheme_4_no_parent:
  "length (aix three_ring) = 3
   \<and> map (GetAtomicNum (store_of spiro_aziridine)) (ring_atoms spiro_scaffold three_ring) = [7, 6, 6]
   \<and> shared_bonds spiro_aziridine three_ring = [0]
   \<and> rings spiro_scaffold ! 0 = three_ring
   \<and> ring_consistent (store_of spiro_aziridine) 0
   \<and> rings_closed spiro_aziridine \<and> simple_graph spiro_aziridine
   \<and> snd (fragment_rings spiro_engine True (store_of spiro_aziridine) spiro_scaffold
             [(0, three_ring)] []) = Inr []
   \<and> snd (MurckoRingFragmenter_fragment spiro_engine True (store_of spiro_aziridine)
             spiro_scaffold)
       = Inr [\<lparr>mol = 5, rings = [three_ring, \<lparr>aix = [2, 3, 4], bix = [3, 4, 5]\<rparr>],
               ring_systems = [\<lparr>aix = [0, 1, 2, 3, 4], bix = [0, 1, 2, 3, 4, 5]\<rparr>],
               removed_ring_idx = Some 1, smiles = ''C1CC12CN2''\<rparr>,
              \<lparr>mol = 7, rings = [three_ring, \<lparr>aix = [0, 1, 3, 4], bix = [0, 3, 4, 5]\<rparr>],
               ring_systems = [\<lparr>aix = [0, 1, 2, 3, 4], bix = [0, 1, 2, 3, 4, 5]\<rparr>],
               removed_ring_idx = Some 2, smiles = ''C1CN2CC12''\<rparr>]"
  by code_simp

end
